theory Spec2Isabelle
  imports Main "HOL-Library.Monad_Syntax"
begin

section \<open>The wTrie prefix tree of Markflow (wtrie.h)\<close>

text \<open>
  The trie of \<^verbatim>\<open>wtrie.h\<close> is a pointer structure: every node holds a wide
  character, a terminal flag, a payload pointer and two links (first child, next
  sibling). Nodes are overwritten in place, unlinked and freed, so the model keeps an
  explicit store from addresses to objects and threads it through every function.

  \<^item> A pointer is an \<open>addr option\<close>; \<open>None\<close> is \<^verbatim>\<open>NULL\<close>.
  \<^item> A function returns \<open>(result \<times> state) option\<close>. The value \<open>None\<close> means that the
    C call has no defined return: it dereferences \<^verbatim>\<open>NULL\<close>, reads or frees
    memory that is not allocated, or follows a cyclic chain forever.
  \<^item> \<^verbatim>\<open>wchar_t\<close> values are only compared with each other and with
    \<^verbatim>\<open>L'\0'\<close>; they are natural numbers (code points), so no width is lost.
  \<^item> A wide string argument is the list of its characters before the terminating
    \<^verbatim>\<open>L'\0'\<close>; the test \<^verbatim>\<open>*wstring\<close> is the test for the empty list. String
    pointers are never \<^verbatim>\<open>NULL\<close> in the model.
\<close>

subsection \<open>Data model\<close>

type_synonym addr = nat
type_synonym wchar_t = nat

text \<open>\<^verbatim>\<open>struct wTrie\<close>. The field \<^verbatim>\<open>term\<close> is called \<open>termf\<close> here.\<close>

record wTrie =
  wc :: wchar_t
  sibling :: "addr option"
  child :: "addr option"
  termf :: bool
  meta :: "addr option"

text \<open>An allocated object is a node or a payload buffer of some size in bytes.\<close>

datatype obj = Node wTrie | Buf nat

text \<open>
  The error codes assigned to \<^verbatim>\<open>errno\<close>. The header \<^verbatim>\<open>wtrerrno.h\<close> that
  gives them numbers is not part of the sources, so the codes stay symbolic: \<open>errno\<close>
  holds the name that was assigned last.
\<close>

datatype wtrerrno =
    NOERROR
  | E_WTRIE_NULLPOINTER
  | E_WTRIE_ORPHAN
  | E_WTRIE_EMPTYWORD
  | E_WTRIE_DUPCHILD
  | E_WTRIE_NOSUCHNODE
  | E_WTRIE_NOSUCHWORD
  | I_WTRIE_NOSUCHWORD
  | E_WTRIE_CORRUPT
  | E_WTRIE_SPAWNFAILED
  | W_WTRIE_METANOTSET

text \<open>
  The program state: the store, the next address \<^verbatim>\<open>calloc\<close> hands out,
  \<^verbatim>\<open>errno\<close>, and the addresses passed to \<^verbatim>\<open>free\<close> so far, in call order
  (a trace that the C program does not keep; it makes the order of destruction
  observable).
\<close>

record state =
  heap :: "addr \<Rightarrow> obj option"
  brk :: addr
  errno :: wtrerrno
  freed :: "addr list"

text \<open>
  \<^verbatim>\<open>calloc\<close> is assumed to succeed and to return an address that was never used
  before. \<^verbatim>\<open>free\<close> of an address that is not allocated is undefined.
\<close>

definition c_calloc :: "state \<Rightarrow> obj \<Rightarrow> addr option \<times> state" where
  "c_calloc st ob =
     (Some (brk st), st\<lparr>heap := (heap st)(brk st \<mapsto> ob), brk := Suc (brk st)\<rparr>)"

definition c_free :: "state \<Rightarrow> addr \<Rightarrow> state option" where
  "c_free st a =
     (case heap st a of
        None \<Rightarrow> None
      | Some ob \<Rightarrow> Some (st\<lparr>heap := (heap st)(a := None), freed := freed st @ [a]\<rparr>))"

definition zero_node :: wTrie where
  "zero_node = \<lparr>wc = 0, sibling = None, child = None, termf = False, meta = None\<rparr>"

text \<open>Reading \<open>*a\<close> as a node, and writing a node back.\<close>

definition node_at :: "state \<Rightarrow> addr \<Rightarrow> wTrie option" where
  "node_at st a = (case heap st a of Some (Node n) \<Rightarrow> Some n | _ \<Rightarrow> None)"

definition store :: "state \<Rightarrow> addr \<Rightarrow> wTrie \<Rightarrow> state" where
  "store st a n = st\<lparr>heap := (heap st)(a \<mapsto> Node n)\<rparr>"

text \<open>A field assignment \<^verbatim>\<open>a -> f = v\<close>.\<close>

definition assign :: "state \<Rightarrow> addr \<Rightarrow> (wTrie \<Rightarrow> wTrie) \<Rightarrow> state option" where
  "assign st a f = (case node_at st a of None \<Rightarrow> None | Some n \<Rightarrow> Some (store st a (f n)))"

text \<open>
  An output parameter of type \<^verbatim>\<open>struct wTrie**\<close>: \<open>None\<close> when the caller passes
  \<^verbatim>\<open>NULL\<close>, \<open>Some v\<close> when it passes the address of a variable that holds \<open>v\<close>.
  A function with such a parameter returns the variable's new content.
\<close>

type_synonym outp = "addr option option"

definition put :: "outp \<Rightarrow> addr option \<Rightarrow> outp" where
  "put p v = (case p of None \<Rightarrow> None | Some old \<Rightarrow> Some v)"

definition deref :: "outp \<Rightarrow> addr option" where
  "deref p = (case p of None \<Rightarrow> None | Some v \<Rightarrow> v)"

subsection \<open>Consistency check, constructor, destructor\<close>

text \<open>
  \<^verbatim>\<open>wTrie_rOK\<close>: \<^verbatim>\<open>wtr && (sibling ? rOK (sibling) : 1) && (child ? rOK (child) : 1)\<close>,
  with the short-circuit evaluation of \<^verbatim>\<open>&&\<close>.
\<close>

partial_function (option) wTrie_rOK :: "state \<Rightarrow> addr option \<Rightarrow> int option" where
  "wTrie_rOK st wtr =
     (case wtr of
        None \<Rightarrow> Some 0
      | Some a \<Rightarrow>
          (case node_at st a of
             None \<Rightarrow> None
           | Some n \<Rightarrow>
               do {
                 s \<leftarrow> (if sibling n \<noteq> None then wTrie_rOK st (sibling n) else Some 1);
                 if s \<noteq> 0 then
                   do {
                     c \<leftarrow> (if child n \<noteq> None then wTrie_rOK st (child n) else Some 1);
                     Some (if c \<noteq> 0 then 1 else 0)
                   }
                 else Some 0
               }))"

declare wTrie_rOK.simps [code]

definition wTrie_init ::
  "state \<Rightarrow> addr option \<Rightarrow> wchar_t \<Rightarrow> bool \<Rightarrow> addr option \<Rightarrow> nat \<Rightarrow> (int \<times> state) option" where
  "wTrie_init st wtr wch trm mta meta_sz =
     (case wtr of
        None \<Rightarrow> Some (0, st\<lparr>errno := E_WTRIE_NULLPOINTER\<rparr>)
      | Some a \<Rightarrow>
          (case node_at st a of
             None \<Rightarrow> None
           | Some n \<Rightarrow>
               (let n1 = n\<lparr>sibling := None, child := None, wc := wch, termf := trm\<rparr> in
                if meta_sz > 0 then
                  (let st1 = (if mta \<noteq> None then st\<lparr>errno := W_WTRIE_METANOTSET\<rparr> else st);
                       (b, st2) = c_calloc st1 (Buf meta_sz)
                   in Some (1, store st2 a (n1\<lparr>meta := b\<rparr>)))
                else Some (1, store st a (n1\<lparr>meta := mta\<rparr>)))))"

text \<open>
  \<^verbatim>\<open>wTrie_discard\<close> frees the payload, poisons the node and frees it. The poisoned
  bytes are freed at once, so the node simply leaves the store.
\<close>

definition wTrie_discard :: "state \<Rightarrow> addr option \<Rightarrow> (int \<times> state) option" where
  "wTrie_discard st wtr =
     (case wtr of
        None \<Rightarrow> Some (0, st\<lparr>errno := E_WTRIE_NULLPOINTER\<rparr>)
      | Some a \<Rightarrow>
          (case node_at st a of
             None \<Rightarrow> None
           | Some n \<Rightarrow>
               do {
                 st1 \<leftarrow> (case meta n of None \<Rightarrow> Some st | Some m \<Rightarrow> c_free st m);
                 st2 \<leftarrow> c_free st1 a;
                 Some (1, st2)
               }))"

subsection \<open>Child lookup\<close>

text \<open>
  The loop of \<^verbatim>\<open>wTrie_child\<close>. \<open>first\<close> is \<^verbatim>\<open>parent -> child\<close>, which the loop
  does not change; \<open>cur\<close> is the loop variable \<^verbatim>\<open>child\<close>.
\<close>

partial_function (option) wTrie_child_loop ::
  "state \<Rightarrow> addr option \<Rightarrow> wchar_t \<Rightarrow> addr option \<Rightarrow> addr option \<Rightarrow> addr option \<Rightarrow> outp
     \<Rightarrow> (addr option \<times> outp) option" where
  "wTrie_child_loop st first wch cur lostchild lsib lsibling_p =
     (case cur of
        None \<Rightarrow> Some (lostchild, lsibling_p)
      | Some c \<Rightarrow>
          if lostchild \<noteq> None then Some (lostchild, lsibling_p)
          else
            (case node_at st c of
               None \<Rightarrow> None
             | Some n \<Rightarrow>
                 wTrie_child_loop st first wch (sibling n)
                   (if wc n = wch then cur else lostchild)
                   (if cur \<noteq> first then cur else lsib)
                   (if wc n = wch then put lsibling_p lsib else lsibling_p)))"

declare wTrie_child_loop.simps [code]

definition wTrie_child ::
  "state \<Rightarrow> addr option \<Rightarrow> wchar_t \<Rightarrow> outp \<Rightarrow> ((addr option \<times> outp) \<times> state) option" where
  "wTrie_child st parent wch lsibling_p =
     (case parent of
        None \<Rightarrow> Some ((None, lsibling_p), st\<lparr>errno := E_WTRIE_ORPHAN\<rparr>)
      | Some p \<Rightarrow>
          (case node_at st p of
             None \<Rightarrow> None
           | Some pn \<Rightarrow>
               (case wTrie_child_loop st (child pn) wch (child pn) None None lsibling_p of
                  None \<Rightarrow> None
                | Some r \<Rightarrow> Some (r, st))))"

subsection \<open>Insertion\<close>

text \<open>
  \<^verbatim>\<open>wTrie_spawn\<close>. \<open>newborn\<close> stays a pointer that may be \<^verbatim>\<open>NULL\<close>, as in the
  source, although \<open>c_calloc\<close> never returns \<^verbatim>\<open>NULL\<close> here.
\<close>

definition wTrie_spawn ::
  "state \<Rightarrow> bool \<Rightarrow> addr option \<Rightarrow> wchar_t \<Rightarrow> bool \<Rightarrow> addr option \<Rightarrow> nat
     \<Rightarrow> (addr option \<times> state) option" where
  "wTrie_spawn st strict parent wch trm mta meta_sz =
     (case parent of
        None \<Rightarrow> Some (None, st\<lparr>errno := E_WTRIE_ORPHAN\<rparr>)
      | Some p \<Rightarrow>
          (case wTrie_child st parent wch None of
             None \<Rightarrow> None
           | Some ((None, _), st1) \<Rightarrow>
               (let (newborn, st2) = c_calloc st1 (Node zero_node) in
                do {
                  (_, st3) \<leftarrow> wTrie_init st2 newborn wch trm mta meta_sz;
                  pn \<leftarrow> node_at st3 p;
                  st4 \<leftarrow> (if child pn \<noteq> None
                          then (case newborn of
                                  None \<Rightarrow> None
                                | Some nb \<Rightarrow> assign st3 nb (\<lambda>n. n\<lparr>sibling := child pn\<rparr>))
                          else Some st3);
                  st5 \<leftarrow> assign st4 p (\<lambda>n. n\<lparr>child := newborn\<rparr>);
                  if newborn \<noteq> None then Some (newborn, st5)
                  else Some (None, st5\<lparr>errno := E_WTRIE_SPAWNFAILED\<rparr>)
                })
           | Some ((Some c, _), st1) \<Rightarrow>
               if strict then Some (None, st1\<lparr>errno := E_WTRIE_DUPCHILD\<rparr>)
               else
                 do {
                   st2 \<leftarrow> assign st1 c (\<lambda>n. n\<lparr>termf := trm\<rparr>);
                   st3 \<leftarrow> assign st2 c (\<lambda>n. n\<lparr>meta := mta\<rparr>);
                   Some (Some c, st3)
                 }))"

fun wTrie_addword :: "state \<Rightarrow> addr option \<Rightarrow> wchar_t list \<Rightarrow> (addr option \<times> state) option" where
  "wTrie_addword st wtr [] =
     (if wtr = None then Some (None, st\<lparr>errno := E_WTRIE_NULLPOINTER\<rparr>)
      else Some (None, st\<lparr>errno := E_WTRIE_EMPTYWORD\<rparr>))"
| "wTrie_addword st wtr (wch # ws) =
     (if wtr = None then Some (None, st\<lparr>errno := E_WTRIE_NULLPOINTER\<rparr>)
      else if ws \<noteq> [] then
        (case wTrie_spawn st False wtr wch False None 0 of
           None \<Rightarrow> None
         | Some (nwtr, st1) \<Rightarrow> wTrie_addword st1 nwtr ws)
      else wTrie_spawn st False wtr wch True None 0)"

subsection \<open>Lookup\<close>

primrec wTrie_findword :: "state \<Rightarrow> addr option \<Rightarrow> wchar_t list \<Rightarrow> (addr option \<times> state) option" where
  "wTrie_findword st wtr [] =
     (if wtr = None then Some (None, st\<lparr>errno := E_WTRIE_NULLPOINTER\<rparr>)
      else Some (None, st\<lparr>errno := E_WTRIE_EMPTYWORD\<rparr>))"
| "wTrie_findword st wtr (wch # ws) =
     (if wtr = None then Some (None, st\<lparr>errno := E_WTRIE_NULLPOINTER\<rparr>)
      else
        (case wTrie_child st wtr wch None of
           None \<Rightarrow> None
         | Some ((None, _), st1) \<Rightarrow> Some (None, st1\<lparr>errno := I_WTRIE_NOSUCHWORD\<rparr>)
         | Some ((Some c, _), st1) \<Rightarrow>
             (case node_at st1 c of
                None \<Rightarrow> None
              | Some cn \<Rightarrow>
                  if termf cn \<and> ws = [] then Some (Some c, st1)
                  else if ws \<noteq> [] then wTrie_findword st1 (Some c) ws
                  else Some (None, st1\<lparr>errno := I_WTRIE_NOSUCHWORD\<rparr>))))"

text \<open>
  \<^verbatim>\<open>wTrie_findword_rel\<close> returns the node and the new contents of the two output
  variables. In the branch for a word of two characters the callee gets the
  addresses of the locals \<^verbatim>\<open>mbparent\<close> (initialised with \<^verbatim>\<open>child\<close>) and
  \<^verbatim>\<open>mblsibling\<close> (initialised with \<^verbatim>\<open>NULL\<close>).
\<close>

fun wTrie_findword_rel ::
  "state \<Rightarrow> addr option \<Rightarrow> wchar_t list \<Rightarrow> outp \<Rightarrow> outp
     \<Rightarrow> ((addr option \<times> outp \<times> outp) \<times> state) option" where
  "wTrie_findword_rel st wtr [] parent_p lsibling_p =
     (if wtr = None then Some ((None, parent_p, lsibling_p), st\<lparr>errno := E_WTRIE_NULLPOINTER\<rparr>)
      else Some ((None, parent_p, lsibling_p), st\<lparr>errno := E_WTRIE_EMPTYWORD\<rparr>))"
| "wTrie_findword_rel st wtr (wch # ws) parent_p lsibling_p =
     (if wtr = None then Some ((None, parent_p, lsibling_p), st\<lparr>errno := E_WTRIE_NULLPOINTER\<rparr>)
      else
        (case wTrie_child st wtr wch (if ws = [] then lsibling_p else None) of
           None \<Rightarrow> None
         | Some ((None, lp), st1) \<Rightarrow>
             Some ((None, parent_p, if ws = [] then lp else lsibling_p),
                   st1\<lparr>errno := I_WTRIE_NOSUCHWORD\<rparr>)
         | Some ((Some c, lp), st1) \<Rightarrow>
             (let lsibling_p1 = (if ws = [] then lp else lsibling_p) in
              case node_at st1 c of
                None \<Rightarrow> None
              | Some cn \<Rightarrow>
                  if termf cn \<and> ws = [] then Some ((Some c, parent_p, lsibling_p1), st1)
                  else if ws \<noteq> [] then
                    (if tl ws = [] then
                       (case wTrie_findword_rel st1 (Some c) ws (Some (Some c)) (Some None) of
                          None \<Rightarrow> None
                        | Some ((mbchild, mbparent, mblsibling), st2) \<Rightarrow>
                            if mbchild \<noteq> None then
                              Some ((mbchild, put parent_p (deref mbparent),
                                     put lsibling_p1 (deref mblsibling)), st2)
                            else
                              Some ((None, parent_p, lsibling_p1),
                                    st2\<lparr>errno := I_WTRIE_NOSUCHWORD\<rparr>))
                     else wTrie_findword_rel st1 (Some c) ws parent_p lsibling_p1)
                  else
                    Some ((None, parent_p, lsibling_p1), st1\<lparr>errno := I_WTRIE_NOSUCHWORD\<rparr>))))"

subsection \<open>Destruction\<close>

text \<open>
  \<^verbatim>\<open>wTrie_purge\<close>. Its guard \<^verbatim>\<open>_PRECONDITION (wTrie_rOK, E_WTRIE_CORRUPT, return)\<close>
  tests the function designator \<^verbatim>\<open>wTrie_rOK\<close>, not a call of it; a function's
  address is never null, so the guard never fires and the body always runs. With
  \<^verbatim>\<open>wtr = NULL\<close> the body reads \<^verbatim>\<open>wtr -> sibling\<close>.
\<close>

partial_function (option) wTrie_purge :: "state \<Rightarrow> addr option \<Rightarrow> state option" where
  "wTrie_purge st wtr =
     (case wtr of
        None \<Rightarrow> None
      | Some a \<Rightarrow>
          (case node_at st a of
             None \<Rightarrow> None
           | Some n \<Rightarrow>
               (case wTrie_discard st wtr of
                  None \<Rightarrow> None
                | Some (_, st1) \<Rightarrow>
                    do {
                      st2 \<leftarrow> (if sibling n \<noteq> None then wTrie_purge st1 (sibling n) else Some st1);
                      if child n \<noteq> None then wTrie_purge st2 (child n) else Some st2
                    })))"

declare wTrie_purge.simps [code]

definition wTrie_collapse :: "state \<Rightarrow> addr option \<Rightarrow> wchar_t \<Rightarrow> (int \<times> state) option" where
  "wTrie_collapse st parent wch =
     (case parent of
        None \<Rightarrow> Some (0, st\<lparr>errno := E_WTRIE_ORPHAN\<rparr>)
      | Some p \<Rightarrow>
          (case wTrie_child st parent wch (Some None) of
             None \<Rightarrow> None
           | Some ((None, _), st1) \<Rightarrow> Some (0, st1\<lparr>errno := E_WTRIE_NOSUCHNODE\<rparr>)
           | Some ((Some c, lp), st1) \<Rightarrow>
               (case node_at st1 c of
                  None \<Rightarrow> None
                | Some cn \<Rightarrow>
                    do {
                      st2 \<leftarrow> (if sibling cn \<noteq> None then
                                (case deref lp of
                                   Some lsib \<Rightarrow> assign st1 lsib (\<lambda>n. n\<lparr>sibling := sibling cn\<rparr>)
                                 | None \<Rightarrow> assign st1 p (\<lambda>n. n\<lparr>child := sibling cn\<rparr>))
                              else Some st1);
                      st3 \<leftarrow> assign st2 c (\<lambda>n. n\<lparr>sibling := None\<rparr>);
                      st4 \<leftarrow> wTrie_purge st3 (Some c);
                      Some (1, st4)
                    })))"

subsection \<open>Leaf detection and removal\<close>

definition wTrie_hasmultichild :: "state \<Rightarrow> addr option \<Rightarrow> (bool \<times> state) option" where
  "wTrie_hasmultichild st wtr =
     (case wtr of
        None \<Rightarrow> Some (False, st\<lparr>errno := E_WTRIE_NULLPOINTER\<rparr>)
      | Some a \<Rightarrow>
          (case node_at st a of
             None \<Rightarrow> None
           | Some n \<Rightarrow>
               (case child n of
                  None \<Rightarrow> Some (False, st)
                | Some c \<Rightarrow>
                    (case node_at st c of
                       None \<Rightarrow> None
                     | Some cn \<Rightarrow> Some (sibling cn \<noteq> None, st)))))"

text \<open>
  The \<^verbatim>\<open>do ... while (!fin)\<close> loop of \<^verbatim>\<open>wTrie_leaf\<close>. The list argument is what
  is left of the string from position \<open>i\<close> on, the terminating \<^verbatim>\<open>L'\0'\<close> included
  as a last element \<open>0\<close>; reading behind the terminator is undefined. The result is
  \<open>(leaf, parent)\<close> at the exit of the loop.
\<close>

fun wTrie_leaf_loop ::
  "state \<Rightarrow> addr option \<Rightarrow> wchar_t list \<Rightarrow> addr option \<Rightarrow> addr option \<Rightarrow> addr option
     \<Rightarrow> ((addr option \<times> addr option) \<times> state) option" where
  "wTrie_leaf_loop st endnode [] leaf node parent = None"
| "wTrie_leaf_loop st endnode (wch # rest) leaf node parent =
     (let fin = (node = endnode) in
      case wTrie_child st node wch None of
        None \<Rightarrow> None
      | Some ((chld, _), st1) \<Rightarrow>
          if \<not> fin then
            (case wTrie_hasmultichild st1 chld of
               None \<Rightarrow> None
             | Some (multi, st2) \<Rightarrow>
                 if \<not> multi then
                   wTrie_leaf_loop st2 endnode rest
                     (if leaf = None then chld else leaf) chld
                     (if parent = None then node else parent)
                 else wTrie_leaf_loop st2 endnode rest None chld None)
          else
            (case node of
               None \<Rightarrow> None
             | Some a \<Rightarrow>
                 (case node_at st1 a of
                    None \<Rightarrow> None
                  | Some n \<Rightarrow>
                      if child n \<noteq> None then Some ((None, None), st1)
                      else Some ((leaf, parent), st1))))"

definition wTrie_leaf ::
  "state \<Rightarrow> addr option \<Rightarrow> wchar_t list \<Rightarrow> outp \<Rightarrow> ((addr option \<times> outp) \<times> state) option" where
  "wTrie_leaf st wtr wstring parent_p =
     (if wtr = None then Some ((None, parent_p), st\<lparr>errno := E_WTRIE_NULLPOINTER\<rparr>)
      else if wstring = [] then Some ((None, parent_p), st\<lparr>errno := E_WTRIE_EMPTYWORD\<rparr>)
      else
        (case wTrie_findword st wtr wstring of
           None \<Rightarrow> None
         | Some (None, st1) \<Rightarrow> Some ((None, parent_p), st1\<lparr>errno := E_WTRIE_NOSUCHWORD\<rparr>)
         | Some (Some e, st1) \<Rightarrow>
             (case wTrie_leaf_loop st1 (Some e) (wstring @ [0]) None wtr None of
                None \<Rightarrow> None
              | Some ((leaf, parent), st2) \<Rightarrow> Some ((leaf, put parent_p parent), st2))))"

definition wTrie_rmword :: "state \<Rightarrow> addr option \<Rightarrow> wchar_t list \<Rightarrow> (int \<times> state) option" where
  "wTrie_rmword st wtr wstring =
     (case wTrie_findword st wtr wstring of
        None \<Rightarrow> None
      | Some (None, st1) \<Rightarrow> Some (0, st1\<lparr>errno := E_WTRIE_NOSUCHWORD\<rparr>)
      | Some (Some e, st1) \<Rightarrow>
          (case wTrie_leaf st1 wtr wstring (Some None) of
             None \<Rightarrow> None
           | Some ((leaf, pp), st2) \<Rightarrow>
               (case node_at st2 e of
                  None \<Rightarrow> None
                | Some en \<Rightarrow>
                    (case leaf of
                       Some l \<Rightarrow>
                         if child en = None then
                           (case node_at st2 l of
                              None \<Rightarrow> None
                            | Some ln \<Rightarrow>
                                (case wTrie_collapse st2 (deref pp) (wc ln) of
                                   None \<Rightarrow> None
                                 | Some (_, st3) \<Rightarrow> Some (1, st3)))
                         else
                           do { st3 \<leftarrow> assign st2 e (\<lambda>n. n\<lparr>termf := False\<rparr>); Some (1, st3) }
                     | None \<Rightarrow>
                         do { st3 \<leftarrow> assign st2 e (\<lambda>n. n\<lparr>termf := False\<rparr>); Some (1, st3) }))))"

subsection \<open>The empty trie\<close>

text \<open>
  The tree that \<^verbatim>\<open>main\<close> starts from: one node from \<^verbatim>\<open>calloc\<close>, initialised by
  \<^verbatim>\<open>wTrie_init (WT, L'\0', 0, NULL, 0)\<close>. In a fresh state it sits at address 1.
\<close>

definition fresh :: state where
  "fresh = \<lparr>heap = (\<lambda>a. None), brk = 1, errno = NOERROR, freed = []\<rparr>"

definition new_trie :: "(addr option \<times> state) option" where
  "new_trie =
     (let (wt, st1) = c_calloc fresh (Node zero_node) in
      case wTrie_init st1 wt 0 False None 0 of
        None \<Rightarrow> None
      | Some (_, st2) \<Rightarrow> Some (wt, st2))"

section \<open>Scenarios and specification-level notions\<close>

subsection \<open>Building a trie as \<^verbatim>\<open>main\<close> does\<close>

text \<open>A string literal as a wide string: the code points of its characters.\<close>

definition wstr :: "string \<Rightarrow> wchar_t list" where
  "wstr s = map of_char s"

fun insert_all :: "state \<Rightarrow> addr option \<Rightarrow> wchar_t list list \<Rightarrow> state option" where
  "insert_all st wt [] = Some st"
| "insert_all st wt (w # ws) =
     (case wTrie_addword st wt w of None \<Rightarrow> None | Some (_, st1) \<Rightarrow> insert_all st1 wt ws)"

text \<open>
  \<open>build ws\<close> creates the empty trie and inserts the words \<open>ws\<close> with
  \<^verbatim>\<open>wTrie_addword\<close>, from left to right. The root is at address 1 and the nodes
  that the insertions allocate follow at 2, 3, ...
\<close>

definition build :: "string list \<Rightarrow> (addr option \<times> state) option" where
  "build ws =
     (case new_trie of
        None \<Rightarrow> None
      | Some (wt, st) \<Rightarrow>
          (case insert_all st wt (map wstr ws) of None \<Rightarrow> None | Some st' \<Rightarrow> Some (wt, st')))"

text \<open>The nodes found at a list of addresses.\<close>

definition nodes_at :: "state \<Rightarrow> addr list \<Rightarrow> wTrie option list" where
  "nodes_at st as = map (node_at st) as"

text \<open>A C truth value: an \<^verbatim>\<open>int\<close> that was returned and is not 0.\<close>

definition returns_true :: "int option \<Rightarrow> bool" where
  "returns_true r = (case r of None \<Rightarrow> False | Some v \<Rightarrow> v \<noteq> 0)"

subsection \<open>Scenarios\<close>

text \<open>
  Insert \<open>dog\<close> into the empty trie and remove it again. Observed: the nodes 1 to 4
  before the removal, the return value of \<^verbatim>\<open>wTrie_rmword\<close>, the trace of
  \<^verbatim>\<open>free\<close>, the root and the store at 2, 3, 4 after the removal.
\<close>

definition remove_only_word ::
  "(wTrie option list \<times> int \<times> addr list \<times> wTrie option \<times> obj option list) option" where
  "remove_only_word =
     (case build [''dog''] of
        None \<Rightarrow> None
      | Some (wt, st) \<Rightarrow>
          (case wTrie_rmword st wt (wstr ''dog'') of
             None \<Rightarrow> None
           | Some (r, st') \<Rightarrow>
               Some (nodes_at st [1, 2, 3, 4], r, freed st', node_at st' 1,
                     map (heap st') [2, 3, 4])))"

text \<open>
  Insert \<open>dog\<close>, then \<open>do\<close>. Observed: the nodes 1 to 4, the results of looking up
  both words, the leaf and the parent that \<^verbatim>\<open>wTrie_leaf\<close> reports for \<open>dog\<close>, and
  the trace of \<^verbatim>\<open>free\<close> after removing \<open>dog\<close>.
\<close>

definition leaf_with_inner_word ::
  "(wTrie option list \<times> addr option option \<times> addr option option \<times>
    (addr option \<times> outp) option \<times> addr list option) option" where
  "leaf_with_inner_word =
     (case build [''dog'', ''do''] of
        None \<Rightarrow> None
      | Some (wt, st) \<Rightarrow>
          Some (nodes_at st [1, 2, 3, 4],
                map_option fst (wTrie_findword st wt (wstr ''do'')),
                map_option fst (wTrie_findword st wt (wstr ''dog'')),
                map_option fst (wTrie_leaf st wt (wstr ''dog'') (Some None)),
                map_option (\<lambda>(r, st'). freed st') (wTrie_rmword st wt (wstr ''dog''))))"

text \<open>
  Insert \<open>dog\<close>, look it up, remove it, look it up again. Observed: the result of
  the first lookup, the node it returns, the return value of the removal, whether the
  second lookup has a defined return, and the root with the store at its child after
  the removal.
\<close>

definition round_trip ::
  "(addr option option \<times> wTrie option \<times> int \<times> (addr option \<times> state) option \<times>
    wTrie option \<times> obj option) option" where
  "round_trip =
     (case build [''dog''] of
        None \<Rightarrow> None
      | Some (wt, st) \<Rightarrow>
          (case wTrie_rmword st wt (wstr ''dog'') of
             None \<Rightarrow> None
           | Some (r, st') \<Rightarrow>
               Some (map_option fst (wTrie_findword st wt (wstr ''dog'')), node_at st 4, r,
                     wTrie_findword st' wt (wstr ''dog''), node_at st' 1, heap st' 2)))"

text \<open>
  Insert \<open>a\<close>, then \<open>b\<close>: the root's child list is \<open>b\<close> (node 3), \<open>a\<close> (node 2).
  Observed: the nodes 1 to 3 and what \<^verbatim>\<open>wTrie_child\<close> returns for \<open>a\<close> when it is
  given the address of a variable that holds \<^verbatim>\<open>NULL\<close>.
\<close>

definition second_child_lookup :: "(wTrie option list \<times> (addr option \<times> outp) option) option" where
  "second_child_lookup =
     (case build [''a'', ''b''] of
        None \<Rightarrow> None
      | Some (wt, st) \<Rightarrow>
          Some (nodes_at st [1, 2, 3],
                map_option fst (wTrie_child st wt (of_char CHR ''a'') (Some None))))"

text \<open>
  Insert \<open>a\<close>, then \<open>bc\<close>, and purge the root as \<^verbatim>\<open>main\<close> does. Observed: the
  nodes 1 to 4 and the trace of \<^verbatim>\<open>free\<close>.
\<close>

definition purge_order :: "(wTrie option list \<times> addr list option) option" where
  "purge_order =
     (case build [''a'', ''bc''] of
        None \<Rightarrow> None
      | Some (wt, st) \<Rightarrow> Some (nodes_at st [1, 2, 3, 4], map_option freed (wTrie_purge st wt)))"

text \<open>
  Insert \<open>do\<close>, then \<open>dog\<close>, and call \<^verbatim>\<open>wTrie_rmword\<close> for \<open>do\<close>. Observed: the
  nodes 1 to 4 before the call, what \<^verbatim>\<open>wTrie_findword\<close> returns for \<open>do\<close> before
  the call, the return value of the call, \<^verbatim>\<open>errno\<close> after it, and the nodes 1 to 4
  after it.
\<close>

definition remove_overwritten_word ::
  "(wTrie option list \<times> addr option option \<times> int \<times> wtrerrno \<times> wTrie option list) option" where
  "remove_overwritten_word =
     (case build [''do'', ''dog''] of
        None \<Rightarrow> None
      | Some (wt, st) \<Rightarrow>
          (case wTrie_rmword st wt (wstr ''do'') of
             None \<Rightarrow> None
           | Some (r, st') \<Rightarrow>
               Some (nodes_at st [1, 2, 3, 4],
                     map_option fst (wTrie_findword st wt (wstr ''do'')),
                     r, errno st', nodes_at st' [1, 2, 3, 4])))"

text \<open>
  Lookups with \<^verbatim>\<open>wTrie_findword_rel\<close>. In the trie that holds \<open>a\<close>: the nodes 1 and
  2, the result for \<open>a\<close> when both output variables hold \<^verbatim>\<open>NULL\<close> before the call,
  and the result when the parent variable holds the address 77 before the call. In the
  trie built from \<open>ab\<close>, then \<open>ac\<close>: the nodes 1 to 4 and the result for \<open>ab\<close>, both
  output variables holding \<^verbatim>\<open>NULL\<close> before the call.
\<close>

definition relatives_of_stored_words ::
  "(wTrie option list \<times> (addr option \<times> outp \<times> outp) option \<times>
    (addr option \<times> outp \<times> outp) option \<times>
    wTrie option list \<times> (addr option \<times> outp \<times> outp) option) option" where
  "relatives_of_stored_words =
     (case build [''a''] of
        None \<Rightarrow> None
      | Some (wt, st) \<Rightarrow>
          (case build [''ab'', ''ac''] of
             None \<Rightarrow> None
           | Some (wt2, st2) \<Rightarrow>
               Some (nodes_at st [1, 2],
                     map_option fst (wTrie_findword_rel st wt (wstr ''a'') (Some None) (Some None)),
                     map_option fst
                       (wTrie_findword_rel st wt (wstr ''a'') (Some (Some 77)) (Some None)),
                     nodes_at st2 [1, 2, 3, 4],
                     map_option fst
                       (wTrie_findword_rel st2 wt2 (wstr ''ab'') (Some None) (Some None)))))"

text \<open>
  The state that \<open>build ws\<close> ends in.
\<close>

definition built :: "string list \<Rightarrow> state" where
  "built ws = (case build ws of None \<Rightarrow> fresh | Some (wt, st) \<Rightarrow> st)"

subsection \<open>Sibling lists and paths\<close>

text \<open>
  \<open>chain st p as\<close>: the sibling list that starts at pointer \<open>p\<close> consists of the
  nodes at the addresses \<open>as\<close>, in this order, and ends with \<^verbatim>\<open>NULL\<close>.
\<close>

primrec chain :: "state \<Rightarrow> addr option \<Rightarrow> addr list \<Rightarrow> bool" where
  "chain st p [] = (p = None)"
| "chain st p (a # as) =
     (p = Some a \<and> (case node_at st a of None \<Rightarrow> False | Some n \<Rightarrow> chain st (sibling n) as))"

text \<open>
  \<open>path st r w\<close>: the node reached from node \<open>r\<close> by looking up the characters of
  \<open>w\<close> one after the other with \<^verbatim>\<open>wTrie_child\<close>, whatever the terminal flags say.
\<close>

primrec path :: "state \<Rightarrow> addr \<Rightarrow> wchar_t list \<Rightarrow> addr option" where
  "path st r [] = Some r"
| "path st r (wch # ws) =
     (case wTrie_child st (Some r) wch None of
        Some ((Some c, _), _) \<Rightarrow> path st c ws
      | _ \<Rightarrow> None)"

subsection \<open>Well-formed tries\<close>

text \<open>
  The shape of a well-formed structure is a finite forest. A tree \<open>AT a c t m kids\<close>
  stands for the node at address \<open>a\<close> with symbol \<open>c\<close>, terminal flag \<open>t\<close>, payload
  pointer \<open>m\<close> and the children \<open>kids\<close>, in the order of the child list.
\<close>

datatype atree = AT addr wchar_t bool "addr option" "atree list"

fun sym :: "atree \<Rightarrow> wchar_t" where
  "sym (AT a c t m kids) = c"

fun addr_of :: "atree \<Rightarrow> addr" where
  "addr_of (AT a c t m kids) = a"

text \<open>
  \<open>forest st p ts\<close>: the sibling list at pointer \<open>p\<close> and everything below it is laid
  out in the store as the forest \<open>ts\<close> describes.
\<close>

fun forest :: "state \<Rightarrow> addr option \<Rightarrow> atree list \<Rightarrow> bool" where
  "forest st p [] = (p = None)"
| "forest st p (AT a c t m kids # rest) =
     (p = Some a \<and>
      (case node_at st a of
         None \<Rightarrow> False
       | Some n \<Rightarrow>
           wc n = c \<and> termf n = t \<and> meta n = m \<and>
           forest st (child n) kids \<and> forest st (sibling n) rest))"

text \<open>
  The node addresses of a forest, its payload addresses, and both in the order in which
  \<^verbatim>\<open>wTrie_purge\<close> is expected to free them: the payload of a node and the node,
  then the siblings that follow it, then its children.
\<close>

fun nodes :: "atree list \<Rightarrow> addr list" where
  "nodes [] = []"
| "nodes (AT a c t m kids # rest) = a # nodes kids @ nodes rest"

fun metas :: "atree list \<Rightarrow> addr list" where
  "metas [] = []"
| "metas (AT a c t m kids # rest) =
     (case m of None \<Rightarrow> [] | Some b \<Rightarrow> [b]) @ metas kids @ metas rest"

fun purge_trace :: "atree list \<Rightarrow> addr list" where
  "purge_trace [] = []"
| "purge_trace (AT a c t m kids # rest) =
     (case m of None \<Rightarrow> [] | Some b \<Rightarrow> [b]) @ [a] @ purge_trace rest @ purge_trace kids"

text \<open>
  The state after a list of addresses has been freed, in this order.
\<close>

definition freed_from :: "state \<Rightarrow> addr list \<Rightarrow> state" where
  "freed_from st as =
     st\<lparr>heap := (\<lambda>x. if x \<in> set as then None else heap st x), freed := freed st @ as\<rparr>"

text \<open>
  \<open>trie st r ts\<close>: node \<open>r\<close> is a root whose children are laid out as the forest
  \<open>ts\<close>; no node occurs twice, the root is not among its descendants, and all nodes lie
  below the next address of the allocator.
\<close>

definition trie :: "state \<Rightarrow> addr \<Rightarrow> atree list \<Rightarrow> bool" where
  "trie st r ts =
     (case node_at st r of
        None \<Rightarrow> False
      | Some rn \<Rightarrow>
          forest st (child rn) ts \<and> distinct (nodes ts) \<and> r \<notin> set (nodes ts) \<and>
          (\<forall>a\<in>set (r # nodes ts). a < brk st))"

subsection \<open>The operations on the shape\<close>

text \<open>
  What lookup and insertion do to the forest. \<open>find_sym\<close> is the first tree with a
  given symbol, \<open>a_walk\<close> the tree at the end of a path, \<open>a_find\<close> its address when it
  is terminal. \<open>a_add b ts w\<close> is the forest after \<^verbatim>\<open>wTrie_addword\<close> of \<open>w\<close>, when
  \<open>b\<close> is the next address of the allocator: an existing child is overwritten in place
  (terminal flag as given, payload \<^verbatim>\<open>NULL\<close>), a new child becomes the head of the list.
\<close>

fun find_sym :: "wchar_t \<Rightarrow> atree list \<Rightarrow> atree option" where
  "find_sym c [] = None"
| "find_sym c (t # ts) = (if sym t = c then Some t else find_sym c ts)"

fun replace_first :: "wchar_t \<Rightarrow> atree \<Rightarrow> atree list \<Rightarrow> atree list" where
  "replace_first c t' [] = []"
| "replace_first c t' (t # ts) = (if sym t = c then t' # ts else t # replace_first c t' ts)"

fun a_walk :: "atree list \<Rightarrow> wchar_t list \<Rightarrow> atree option" where
  "a_walk ts [] = None"
| "a_walk ts (c # cs) =
     (case find_sym c ts of
        None \<Rightarrow> None
      | Some (AT a s t m kids) \<Rightarrow> if cs = [] then Some (AT a s t m kids) else a_walk kids cs)"

definition a_find :: "atree list \<Rightarrow> wchar_t list \<Rightarrow> addr option" where
  "a_find ts w =
     (case a_walk ts w of
        None \<Rightarrow> None
      | Some (AT e s t m kids) \<Rightarrow> if t then Some e else None)"

fun a_add :: "addr \<Rightarrow> atree list \<Rightarrow> wchar_t list \<Rightarrow> atree list" where
  "a_add b ts [] = ts"
| "a_add b ts (c # cs) =
     (case find_sym c ts of
        None \<Rightarrow> AT b c (cs = []) None (a_add (Suc b) [] cs) # ts
      | Some (AT a s t m kids) \<Rightarrow> replace_first c (AT a s (cs = []) None (a_add b kids cs)) ts)"

text \<open>
  The state after \<^verbatim>\<open>wTrie_spawn\<close> has given the node \<open>p\<close> (content \<open>pn\<close>) a new
  child with symbol \<open>wch\<close> and terminal flag \<open>trm\<close>.
\<close>

definition spawned :: "state \<Rightarrow> addr \<Rightarrow> wTrie \<Rightarrow> wchar_t \<Rightarrow> bool \<Rightarrow> state" where
  "spawned st p pn wch trm =
     st\<lparr>heap := (heap st)
          (brk st \<mapsto> Node \<lparr>wc = wch, sibling = child pn, child = None, termf = trm, meta = None\<rparr>,
           p \<mapsto> Node (pn\<lparr>child := Some (brk st)\<rparr>)),
        brk := Suc (brk st)\<rparr>"

section \<open>Properties\<close>

subsection \<open>Removing the only word\<close>

text \<open>
  C1. Insert \<open>dog\<close> into the empty trie (root 1; \<open>d\<close>, \<open>o\<close>, \<open>g\<close> at 2, 3, 4) and
  remove it. \<^verbatim>\<open>wTrie_rmword\<close> returns 1 and the three nodes of the chain are freed,
  in the order 2, 3, 4. The root is not childless afterwards: its \<^verbatim>\<open>child\<close> link
  still holds address 2, where nothing is allocated any more. \<^verbatim>\<open>wTrie_collapse\<close>
  relinks the parent only when the removed child has a sibling.
\<close>

theorem rmword_only_word_dangling_root:
  "remove_only_word =
     Some ([Some \<lparr>wc = 0, sibling = None, child = Some 2, termf = False, meta = None\<rparr>,
            Some \<lparr>wc = 100, sibling = None, child = Some 3, termf = False, meta = None\<rparr>,
            Some \<lparr>wc = 111, sibling = None, child = Some 4, termf = False, meta = None\<rparr>,
            Some \<lparr>wc = 103, sibling = None, child = None, termf = True, meta = None\<rparr>],
           1, [2, 3, 4],
           Some \<lparr>wc = 0, sibling = None, child = Some 2, termf = False, meta = None\<rparr>,
           [None, None, None])"
  by code_simp

subsection \<open>The leaf of a word that contains another word\<close>

text \<open>
  C2. Insert \<open>dog\<close>, then \<open>do\<close>. Both words are stored: \<open>do\<close> ends at node 3 and
  \<open>dog\<close> at node 4. For \<open>dog\<close>, \<^verbatim>\<open>wTrie_leaf\<close> reports the chain head 2 with parent
  1, so the chain 2, 3, 4 contains the terminal node of the other stored word \<open>do\<close>;
  removing \<open>dog\<close> frees all three nodes. The loop of \<^verbatim>\<open>wTrie_leaf\<close> looks at the
  number of children only, never at the terminal flag of a node inside the chain.
\<close>

theorem leaf_contains_terminal_of_other_word:
  "leaf_with_inner_word =
     Some ([Some \<lparr>wc = 0, sibling = None, child = Some 2, termf = False, meta = None\<rparr>,
            Some \<lparr>wc = 100, sibling = None, child = Some 3, termf = False, meta = None\<rparr>,
            Some \<lparr>wc = 111, sibling = None, child = Some 4, termf = True, meta = None\<rparr>,
            Some \<lparr>wc = 103, sibling = None, child = None, termf = True, meta = None\<rparr>],
           Some (Some 3), Some (Some 4),
           Some (Some 2, Some (Some 1)),
           Some [2, 3, 4])"
  by code_simp

subsection \<open>Removing a word that is a prefix of another\<close>

text \<open>
  C3, counterexample. Insert \<open>do\<close>, then \<open>dog\<close> into the empty trie (root 1; \<open>d\<close>,
  \<open>o\<close>, \<open>g\<close> at 2, 3, 4). The insertion of \<open>dog\<close> has overwritten the \<open>o\<close> node with a
  clear terminal flag, so \<open>do\<close> is not stored any more: \<^verbatim>\<open>wTrie_findword\<close> returns
  \<^verbatim>\<open>NULL\<close> for it. \<^verbatim>\<open>wTrie_rmword\<close> for \<open>do\<close> returns 0 with
  \<^verbatim>\<open>E_WTRIE_NOSUCHWORD\<close> and writes to no node; it does not clear the flag.
\<close>

theorem rmword_after_longer_insertion_fails:
  "remove_overwritten_word =
     Some ([Some \<lparr>wc = 0, sibling = None, child = Some 2, termf = False, meta = None\<rparr>,
            Some \<lparr>wc = 100, sibling = None, child = Some 3, termf = False, meta = None\<rparr>,
            Some \<lparr>wc = 111, sibling = None, child = Some 4, termf = False, meta = None\<rparr>,
            Some \<lparr>wc = 103, sibling = None, child = None, termf = True, meta = None\<rparr>],
           Some None, 0, E_WTRIE_NOSUCHWORD,
           [Some \<lparr>wc = 0, sibling = None, child = Some 2, termf = False, meta = None\<rparr>,
            Some \<lparr>wc = 100, sibling = None, child = Some 3, termf = False, meta = None\<rparr>,
            Some \<lparr>wc = 111, sibling = None, child = Some 4, termf = False, meta = None\<rparr>,
            Some \<lparr>wc = 103, sibling = None, child = None, termf = True, meta = None\<rparr>])"
  by code_simp

text \<open>
  C3, as amended. Insert \<open>dog\<close>, then \<open>do\<close> into the empty trie (root 1; \<open>d\<close>, \<open>o\<close>,
  \<open>g\<close> at 2, 3, 4): both words are stored and the \<open>o\<close> node is terminal.
  \<^verbatim>\<open>wTrie_rmword\<close> for \<open>do\<close> returns 1 and frees nothing. The store changes at the
  \<open>o\<close> node only, whose terminal flag is now clear and whose child is still the \<open>g\<close>
  node. \<open>dog\<close> is still found, at node 4, and \<open>do\<close> is not found any more.
\<close>

theorem rmword_shared_terminal_clears_flag:
  "(case build [''dog'', ''do''] of
      None \<Rightarrow> False
    | Some (wt, st) \<Rightarrow>
        wTrie_findword st wt (wstr ''do'') = Some (Some 3, st) \<and>
        node_at st 3 =
          Some \<lparr>wc = 111, sibling = None, child = Some 4, termf = True, meta = None\<rparr> \<and>
        (case wTrie_rmword st wt (wstr ''do'') of
           None \<Rightarrow> False
         | Some (r, st') \<Rightarrow>
             r = 1 \<and> freed st' = [] \<and>
             heap st' =
               (heap st)(3 \<mapsto> Node \<lparr>wc = 111, sibling = None, child = Some 4,
                                       termf = False, meta = None\<rparr>) \<and>
             node_at st' 4 =
               Some \<lparr>wc = 103, sibling = None, child = None, termf = True, meta = None\<rparr> \<and>
             wTrie_findword st' wt (wstr ''dog'') = Some (Some 4, st') \<and>
             wTrie_findword st' wt (wstr ''do'') =
               Some (None, st'\<lparr>errno := I_WTRIE_NOSUCHWORD\<rparr>)))"
  by (simp add: build_def new_trie_def fresh_def wstr_def c_calloc_def zero_node_def
      node_at_def store_def assign_def put_def deref_def wTrie_init_def wTrie_child_def
      wTrie_child_loop.simps wTrie_spawn_def wTrie_hasmultichild_def wTrie_leaf_def
      wTrie_rmword_def fun_eq_iff numeral_3_eq_3)

subsection \<open>Insert, find, remove, find\<close>

text \<open>
  C4. Insert \<open>dog\<close> into the empty trie. \<^verbatim>\<open>wTrie_findword\<close> returns node 4, the
  node of \<open>g\<close> with its terminal flag set. \<^verbatim>\<open>wTrie_rmword\<close> returns 1. The lookup
  after the removal has no defined return: the root's \<^verbatim>\<open>child\<close> link still holds
  address 2, which is freed, and \<^verbatim>\<open>wTrie_child\<close> reads through it. It does not
  return \<^verbatim>\<open>NULL\<close> with \<^verbatim>\<open>I_WTRIE_NOSUCHWORD\<close>.
\<close>

theorem round_trip_reads_freed_node:
  "round_trip =
     Some (Some (Some 4),
           Some \<lparr>wc = 103, sibling = None, child = None, termf = True, meta = None\<rparr>,
           1, None,
           Some \<lparr>wc = 0, sibling = None, child = Some 2, termf = False, meta = None\<rparr>,
           None)"
  by (simp add: round_trip_def build_def new_trie_def fresh_def wstr_def c_calloc_def c_free_def
      zero_node_def node_at_def store_def assign_def put_def deref_def wTrie_init_def
      wTrie_discard_def wTrie_child_def wTrie_child_loop.simps wTrie_spawn_def
      wTrie_purge.simps wTrie_collapse_def wTrie_hasmultichild_def wTrie_leaf_def
      wTrie_rmword_def)

subsection \<open>The sibling before the second child\<close>

text \<open>
  C6. Insert \<open>a\<close>, then \<open>b\<close>: the root's child list is node 3 (\<open>b\<close>), then node 2
  (\<open>a\<close>). \<^verbatim>\<open>wTrie_child\<close> finds \<open>a\<close> at node 2, the second position, and stores
  \<^verbatim>\<open>NULL\<close> in the output variable, not node 3. The loop advances \<^verbatim>\<open>lsib\<close> only
  when the current child is not the head of the list, so the head is never
  remembered.
\<close>

theorem child_second_position_no_lsibling:
  "second_child_lookup =
     Some ([Some \<lparr>wc = 0, sibling = None, child = Some 3, termf = False, meta = None\<rparr>,
            Some \<lparr>wc = 97, sibling = None, child = None, termf = True, meta = None\<rparr>,
            Some \<lparr>wc = 98, sibling = Some 2, child = None, termf = True, meta = None\<rparr>],
           Some (Some 2, Some None))"
  by code_simp

subsection \<open>The consistency check\<close>

text \<open>
  C7, counterexample. For the \<^verbatim>\<open>NULL\<close> reference the check returns 0, not true:
  \<^verbatim>\<open>wtr && ...\<close> is false when \<^verbatim>\<open>wtr\<close> is null.
\<close>

theorem rOK_null_is_false: "wTrie_rOK fresh None = Some 0"
  by (simp add: wTrie_rOK.simps)

text \<open>
  C7, as amended. For an absent reference \<^verbatim>\<open>wTrie_rOK\<close> returns 0. It returns 1
  if and only if the reference is present, a node can be read there, its sibling subtree
  (when it has a sibling) passes the check and its child subtree (when it has a child)
  passes the check. It returns nothing but 0 and 1, so that it returns true exactly when
  it returns 1.
\<close>

theorem rOK_true_iff:
  "wTrie_rOK st None = Some 0 \<and>
   (wTrie_rOK st wtr = Some 1 \<longleftrightarrow>
      (\<exists>a n. wtr = Some a \<and> node_at st a = Some n \<and>
         (sibling n = None \<or> wTrie_rOK st (sibling n) = Some 1) \<and>
         (child n = None \<or> wTrie_rOK st (child n) = Some 1))) \<and>
   (returns_true (wTrie_rOK st wtr) \<longleftrightarrow> wTrie_rOK st wtr = Some 1)"
proof -
  have range: "\<And>p r. wTrie_rOK st p = Some r \<Longrightarrow> r = 0 \<or> r = 1"
    by (subst (asm) wTrie_rOK.simps)
       (auto split: option.splits if_splits Option.bind_splits)
  have null: "wTrie_rOK st None = Some 0"
    by (simp add: wTrie_rOK.simps)
  have one: "wTrie_rOK st wtr = Some 1 \<longleftrightarrow>
      (\<exists>a n. wtr = Some a \<and> node_at st a = Some n \<and>
         (sibling n = None \<or> wTrie_rOK st (sibling n) = Some 1) \<and>
         (child n = None \<or> wTrie_rOK st (child n) = Some 1))"
  proof (cases wtr)
    case None
    with null show ?thesis by simp
  next
    case (Some a)
    show ?thesis
    proof (cases "node_at st a")
      case None
      with Some show ?thesis by (subst wTrie_rOK.simps) simp
    next
      case n: (Some n)
      have s: "sibling n \<noteq> None \<Longrightarrow> wTrie_rOK st (sibling n) = None \<or>
                 wTrie_rOK st (sibling n) = Some 0 \<or> wTrie_rOK st (sibling n) = Some 1"
        using range[of "sibling n"] by (cases "wTrie_rOK st (sibling n)") auto
      have c: "child n \<noteq> None \<Longrightarrow> wTrie_rOK st (child n) = None \<or>
                 wTrie_rOK st (child n) = Some 0 \<or> wTrie_rOK st (child n) = Some 1"
        using range[of "child n"] by (cases "wTrie_rOK st (child n)") auto
      show ?thesis using Some n s c
        by (subst wTrie_rOK.simps) (cases "sibling n = None"; cases "child n = None"; auto)
    qed
  qed
  have "returns_true (wTrie_rOK st wtr) \<longleftrightarrow> wTrie_rOK st wtr = Some 1"
    using range[of wtr] by (cases "wTrie_rOK st wtr") (auto simp: returns_true_def)
  with null one show ?thesis by blast
qed

subsection \<open>Facts about the child lookup\<close>

text \<open>
  The loop may not terminate on a cyclic list, so what it returns is characterised by
  induction over its unfolding: a child it reports exists and carries the symbol, and the
  value it stores in the output variable does not depend on what the variable held.
\<close>

lemma child_loop_lost:
  "lost \<noteq> None \<Longrightarrow> wTrie_child_loop st first wch cur lost lsib lp = Some (lost, lp)"
  by (subst wTrie_child_loop.simps) (auto split: option.splits)

lemma child_loop_found:
  assumes "wTrie_child_loop st first wch cur lost lsib lp = Some res"
  shows "fst res \<noteq> lost \<longrightarrow> (\<exists>c n. fst res = Some c \<and> node_at st c = Some n \<and> wc n = wch)"
proof (rule wTrie_child_loop.raw_induct
    [where P = "\<lambda>st first wch cur lost lsib lp res.
       fst res \<noteq> lost \<longrightarrow> (\<exists>c n. fst res = Some c \<and> node_at st c = Some n \<and> wc n = wch)",
     OF _ assms])
  fix loop st first wch cur lost lsib lp res
  assume IH: "\<And>st first wch cur lost lsib lp res.
        loop st first wch cur lost lsib lp = Some res \<Longrightarrow>
        fst res \<noteq> lost \<longrightarrow> (\<exists>c n. fst res = Some c \<and> node_at st c = Some n \<and> wc n = wch)"
    and step: "(case cur of None \<Rightarrow> Some (lost, lp)
      | Some c \<Rightarrow>
          if lost \<noteq> None then Some (lost, lp)
          else case node_at st c of None \<Rightarrow> None
               | Some n \<Rightarrow>
                   loop st first wch (sibling n)
                    (if wc n = wch then cur else lost)
                    (if cur \<noteq> first then cur else lsib)
                    (if wc n = wch then put lp lsib
                     else lp)) = Some res"
  show "fst res \<noteq> lost \<longrightarrow> (\<exists>c n. fst res = Some c \<and> node_at st c = Some n \<and> wc n = wch)"
  proof (cases cur)
    case None
    with step show ?thesis by auto
  next
    case (Some c)
    show ?thesis
    proof (cases "lost \<noteq> None")
      case True
      with Some step show ?thesis by auto
    next
      case False
      with Some step obtain n where n: "node_at st c = Some n"
        by (auto split: option.splits)
      from False Some step n have rec: "loop st first wch (sibling n)
                   (if wc n = wch then cur else lost)
                   (if cur \<noteq> first then cur else lsib)
                   (if wc n = wch then put lp lsib else lp) = Some res" by simp
      from IH[OF rec] n Some False show ?thesis by (auto split: if_splits)
    qed
  qed
qed

lemma child_loop_out:
  assumes "wTrie_child_loop st first wch cur lost lsib lp = Some res"
  shows "\<exists>v. \<forall>lp2. wTrie_child_loop st first wch cur lost lsib lp2 =
            Some (fst res, if fst res \<noteq> lost then put lp2 v else lp2)"
proof (rule wTrie_child_loop.raw_induct
    [where P = "\<lambda>st first wch cur lost lsib lp res.
       \<exists>v. \<forall>lp2. wTrie_child_loop st first wch cur lost lsib lp2 =
            Some (fst res, if fst res \<noteq> lost then put lp2 v else lp2)",
     OF _ assms])
  fix loop st first wch cur lost lsib lp res
  assume IH: "\<And>st first wch cur lost lsib lp res.
        loop st first wch cur lost lsib lp = Some res \<Longrightarrow>
        \<exists>v. \<forall>lp2. wTrie_child_loop st first wch cur lost lsib lp2 =
            Some (fst res, if fst res \<noteq> lost then put lp2 v else lp2)"
    and step: "(case cur of None \<Rightarrow> Some (lost, lp)
      | Some c \<Rightarrow>
          if lost \<noteq> None then Some (lost, lp)
          else case node_at st c of None \<Rightarrow> None
               | Some n \<Rightarrow>
                   loop st first wch (sibling n)
                    (if wc n = wch then cur else lost)
                    (if cur \<noteq> first then cur else lsib)
                    (if wc n = wch then put lp lsib
                     else lp)) = Some res"
  show "\<exists>v. \<forall>lp2. wTrie_child_loop st first wch cur lost lsib lp2 =
            Some (fst res, if fst res \<noteq> lost then put lp2 v else lp2)"
  proof (cases cur)
    case None
    with step have "fst res = lost" by auto
    with None show ?thesis by (subst wTrie_child_loop.simps) simp
  next
    case (Some c)
    show ?thesis
    proof (cases "lost \<noteq> None")
      case True
      with Some step have "fst res = lost" by auto
      with True show ?thesis by (simp add: child_loop_lost)
    next
      case False
      with Some step obtain n where n: "node_at st c = Some n"
        by (auto split: option.splits)
      from False Some step n have rec: "loop st first wch (sibling n)
                   (if wc n = wch then cur else lost)
                   (if cur \<noteq> first then cur else lsib)
                   (if wc n = wch then put lp lsib else lp) = Some res" by simp
      from IH[OF rec] obtain v where v: "\<And>lp2. wTrie_child_loop st first wch (sibling n)
                   (if wc n = wch then cur else lost)
                   (if cur \<noteq> first then cur else lsib) lp2 =
            Some (fst res, if fst res \<noteq> (if wc n = wch then cur else lost) then put lp2 v else lp2)"
        by blast
      show ?thesis
      proof (cases "wc n = wch")
        case True
        with v[of None] Some have r: "fst res = cur" by (simp add: child_loop_lost)
        have "\<forall>lp2. wTrie_child_loop st first wch cur lost lsib lp2 =
            Some (fst res, if fst res \<noteq> lost then put lp2 lsib else lp2)"
          using True r Some False n
          by (subst wTrie_child_loop.simps) (simp add: child_loop_lost)
        then show ?thesis by blast
      next
        case wc: False
        have "\<forall>lp2. wTrie_child_loop st first wch cur lost lsib lp2 =
            Some (fst res, if fst res \<noteq> lost then put lp2 v else lp2)"
          using wc Some False n v
          by (subst wTrie_child_loop.simps) simp
        then show ?thesis by blast
      qed
    qed
  qed
qed

lemma child_state:
  "wTrie_child st (Some p) wch lp = Some (r, st1) \<Longrightarrow> st1 = st"
  by (auto simp: wTrie_child_def split: option.splits)

lemma child_found_node:
  assumes "wTrie_child st (Some p) wch lp = Some ((Some c, lp'), st1)"
  shows "\<exists>n. node_at st c = Some n \<and> wc n = wch"
proof -
  from assms obtain pn where pn: "node_at st p = Some pn"
    and l: "wTrie_child_loop st (child pn) wch (child pn) None None lp = Some (Some c, lp')"
    by (auto simp: wTrie_child_def split: option.splits)
  from child_loop_found[OF l] show ?thesis by simp
qed

lemma child_found_out:
  assumes "wTrie_child st (Some p) wch lp = Some ((Some c, lp'), st1)"
  shows "\<exists>v. \<forall>lp2. wTrie_child st (Some p) wch lp2 = Some ((Some c, put lp2 v), st)"
proof -
  from assms obtain pn where pn: "node_at st p = Some pn"
    and l: "wTrie_child_loop st (child pn) wch (child pn) None None lp = Some (Some c, lp')"
    by (auto simp: wTrie_child_def split: option.splits)
  from child_loop_out[OF l] obtain v where
    "\<And>lp2. wTrie_child_loop st (child pn) wch (child pn) None None lp2 = Some (Some c, put lp2 v)"
    by auto
  with pn have "\<forall>lp2. wTrie_child st (Some p) wch lp2 = Some ((Some c, put lp2 v), st)"
    by (simp add: wTrie_child_def)
  then show ?thesis by blast
qed

lemma node_at_store:
  "node_at (store st a n) b = (if b = a then Some n else node_at st b)"
  by (simp add: node_at_def store_def)

lemma brk_store: "brk (store st a n) = brk st"
  by (simp add: store_def)

lemma chain_store:
  "node_at st c = Some n \<Longrightarrow> sibling n' = sibling n \<Longrightarrow> chain (store st c n') q as = chain st q as"
  by (induction as arbitrary: q) (auto simp: node_at_store split: option.splits)

lemma spawn_lax_found:
  assumes "wTrie_child st (Some p) wch None = Some ((Some c, lp), st)" "node_at st c = Some n"
  shows "wTrie_spawn st False (Some p) wch trm mta sz =
            Some (Some c, store st c (n\<lparr>termf := trm, meta := mta\<rparr>))"
proof -
  from assms(2) have "heap st c = Some (Node n)"
    by (auto simp: node_at_def split: option.splits obj.splits)
  with assms(1) show ?thesis
    by (simp add: wTrie_spawn_def assign_def node_at_def store_def)
qed

lemma spawn_new:
  assumes "wTrie_child st (Some p) wch None = Some ((None, lp), st)" "node_at st p = Some pn"
    "p \<noteq> brk st"
  shows "wTrie_spawn st False (Some p) wch trm None 0 = Some (Some (brk st), spawned st p pn wch trm)"
proof -
  from assms(2) have "heap st p = Some (Node pn)"
    by (auto simp: node_at_def split: option.splits obj.splits)
  with assms(1,3) show ?thesis
    by (cases "child pn")
       (auto simp: wTrie_spawn_def wTrie_init_def c_calloc_def assign_def node_at_def store_def
          zero_node_def spawned_def fun_upd_twist)
qed

subsection \<open>Spawning a symbol that is already there\<close>

text \<open>
  C9. Let the parent \<open>p\<close> have a child with symbol \<open>wch\<close>, so that \<^verbatim>\<open>wTrie_child\<close>
  returns a node \<open>c\<close>. Strict \<^verbatim>\<open>wTrie_spawn\<close> returns \<^verbatim>\<open>NULL\<close> and changes nothing
  but \<^verbatim>\<open>errno\<close>, which becomes \<^verbatim>\<open>E_WTRIE_DUPCHILD\<close>. Non-strict \<^verbatim>\<open>wTrie_spawn\<close>
  returns \<open>c\<close>; the store changes at \<open>c\<close> only, where the terminal flag and the payload
  pointer are overwritten, so every sibling list of the tree consists of the same
  addresses in the same order as before.
\<close>

theorem spawn_existing_child:
  assumes "wTrie_child st (Some p) wch None = Some ((Some c, lp), st1)"
  shows "wTrie_spawn st True (Some p) wch trm mta sz = Some (None, st\<lparr>errno := E_WTRIE_DUPCHILD\<rparr>) \<and>
     (\<exists>n. node_at st c = Some n \<and> wc n = wch \<and>
          wTrie_spawn st False (Some p) wch trm mta sz =
            Some (Some c, store st c (n\<lparr>termf := trm, meta := mta\<rparr>)) \<and>
          (\<forall>q as. chain st q as \<longrightarrow> chain (store st c (n\<lparr>termf := trm, meta := mta\<rparr>)) q as))"
proof -
  from child_state[OF assms] have st1: "st1 = st" .
  from child_found_node[OF assms] obtain n where n: "node_at st c = Some n" "wc n = wch"
    by blast
  have strict: "wTrie_spawn st True (Some p) wch trm mta sz = Some (None, st\<lparr>errno := E_WTRIE_DUPCHILD\<rparr>)"
    using assms st1 by (simp add: wTrie_spawn_def)
  have lax: "wTrie_spawn st False (Some p) wch trm mta sz =
            Some (Some c, store st c (n\<lparr>termf := trm, meta := mta\<rparr>))"
  proof -
    from n have "heap st c = Some (Node n)"
      by (auto simp: node_at_def split: option.splits obj.splits)
    with assms st1 show ?thesis
      by (simp add: wTrie_spawn_def assign_def node_at_def store_def)
  qed
  have "\<forall>q as. chain st q as \<longrightarrow> chain (store st c (n\<lparr>termf := trm, meta := mta\<rparr>)) q as"
    using n by (simp add: chain_store)
  with strict lax n show ?thesis by blast
qed

text \<open>
  An instance: the trie that holds \<open>a\<close> (root 1, \<open>a\<close> at node 2), and symbol \<open>a\<close>
  spawned again under the root.
\<close>

lemmas run_defs = built_def build_def new_trie_def fresh_def wstr_def c_calloc_def c_free_def
  zero_node_def node_at_def store_def assign_def put_def deref_def wTrie_init_def
  wTrie_discard_def wTrie_child_def wTrie_child_loop.simps wTrie_spawn_def

theorem spawn_existing_child_witness:
  "wTrie_child (built [''a'']) (Some 1) 97 None = Some ((Some 2, None), built [''a'']) \<and>
   wTrie_spawn (built [''a'']) True (Some 1) 97 False None 0 =
     Some (None, (built [''a''])\<lparr>errno := E_WTRIE_DUPCHILD\<rparr>) \<and>
   wTrie_spawn (built [''a'']) False (Some 1) 97 False None 0 =
     Some (Some 2, store (built [''a'']) 2
             \<lparr>wc = 97, sibling = None, child = None, termf = False, meta = None\<rparr>)"
proof -
  let ?st = "built [''a'']"
  have h: "wTrie_child ?st (Some 1) 97 None = Some ((Some 2, None), ?st)"
    by (simp add: run_defs)
  have n: "node_at ?st 2 = Some \<lparr>wc = 97, sibling = None, child = None, termf = True, meta = None\<rparr>"
    by (simp add: run_defs)
  from spawn_existing_child[OF h, of False None 0] n h show ?thesis by auto
qed

subsection \<open>Lookup with relatives\<close>

text \<open>
  C10. In the trie that holds \<open>a\<close> (root 1, \<open>a\<close> at node 2),
  \<^verbatim>\<open>wTrie_findword_rel\<close> finds \<open>a\<close> at node 2 but never writes the parent variable:
  it still holds \<^verbatim>\<open>NULL\<close>, or the stale address 77, after the call, and the root is not
  reported. In the trie built from \<open>ab\<close>, then \<open>ac\<close> (root 1, \<open>a\<close> at 2, \<open>b\<close> at 3,
  \<open>c\<close> at 4; child list of \<open>a\<close>: 4, 3) the lookup of \<open>ab\<close> returns node 3 with parent
  2, but the sibling variable receives \<^verbatim>\<open>NULL\<close>, not node 4, which precedes node 3.
\<close>

theorem findword_rel_misses_relatives:
  "relatives_of_stored_words =
     Some ([Some \<lparr>wc = 0, sibling = None, child = Some 2, termf = False, meta = None\<rparr>,
            Some \<lparr>wc = 97, sibling = None, child = None, termf = True, meta = None\<rparr>],
           Some (Some 2, Some None, Some None),
           Some (Some 2, Some (Some 77), Some None),
           [Some \<lparr>wc = 0, sibling = None, child = Some 2, termf = False, meta = None\<rparr>,
            Some \<lparr>wc = 97, sibling = None, child = Some 4, termf = False, meta = None\<rparr>,
            Some \<lparr>wc = 98, sibling = None, child = None, termf = True, meta = None\<rparr>,
            Some \<lparr>wc = 99, sibling = Some 3, child = None, termf = True, meta = None\<rparr>],
           Some (Some 3, Some (Some 2), Some None))"
  by code_simp

text \<open>
  What \<^verbatim>\<open>wTrie_findword_rel\<close> does in general. For a stored word \<open>w\<close> with terminal
  node \<open>e\<close> it returns \<open>e\<close> and leaves the state as it is. Let \<open>par\<close> be the node at
  the end of the path of \<open>w\<close> without its last character. When \<open>w\<close> has two characters
  or more, a supplied parent variable receives \<open>par\<close>; when \<open>w\<close> has one character the
  parent variable keeps its content. The sibling variable receives what
  \<^verbatim>\<open>wTrie_child\<close> stores for the last character under \<open>par\<close>.
\<close>

lemma findword_rel_stored:
  assumes "wTrie_findword st (Some r) w = Some (Some e, st')"
  shows "\<exists>par pp' lp'.
           wTrie_findword_rel st (Some r) w parent_p lsibling_p = Some ((Some e, pp', lp'), st) \<and>
           path st r (butlast w) = Some par \<and>
           wTrie_child st (Some par) (last w) lsibling_p = Some ((Some e, lp'), st) \<and>
           pp' = (if length w = 1 then parent_p else put parent_p (Some par))"
  using assms
proof (induction w arbitrary: r parent_p lsibling_p)
  case Nil
  then show ?case by simp
next
  case (Cons wch ws)
  from Cons.prems obtain c lp st1 where
    ch: "wTrie_child st (Some r) wch None = Some ((Some c, lp), st1)"
    by (auto split: option.splits)
  from child_state[OF ch] have st1: "st1 = st" .
  from child_found_out[OF ch] obtain v where
    v: "\<And>lp2. wTrie_child st (Some r) wch lp2 = Some ((Some c, put lp2 v), st)" by blast
  from Cons.prems ch st1 obtain cn where cn: "node_at st c = Some cn"
    by (auto split: option.splits)
  show ?case
  proof (cases "ws = []")
    case True
    with Cons.prems ch st1 cn have "termf cn" "e = c" by (auto split: if_splits)
    with True cn v[of lsibling_p] show ?thesis by simp
  next
    case False
    with Cons.prems ch st1 cn have fw: "wTrie_findword st (Some c) ws = Some (Some e, st')"
      by (auto split: if_splits)
    have pth: "path st r (butlast (wch # ws)) = path st c (butlast ws)"
      using False ch by simp
    have lst: "last (wch # ws) = last ws" using False by simp
    show ?thesis
    proof (cases "tl ws = []")
      case True
      with False obtain d where ws: "ws = [d]" by (cases ws) auto
      from Cons.IH[OF fw, of "Some (Some c)" "Some None"] ws obtain lp1 where
        inner: "wTrie_findword_rel st (Some c) ws (Some (Some c)) (Some None) =
                  Some ((Some e, Some (Some c), lp1), st)"
        and ch1: "wTrie_child st (Some c) d (Some None) = Some ((Some e, lp1), st)"
        by auto
      from child_found_out[OF ch1] obtain u where
        u: "\<And>lp2. wTrie_child st (Some c) d lp2 = Some ((Some e, put lp2 u), st)" by blast
      from u[of "Some None"] ch1 have lp1: "deref lp1 = u" by (auto simp: put_def deref_def)
      from inner ws v[of None] cn lp1 u[of lsibling_p] show ?thesis
        by (auto simp: put_def deref_def split: option.splits)
    next
      case long: False
      from Cons.IH[OF fw, of parent_p lsibling_p] obtain par pp' lp' where
        ih: "wTrie_findword_rel st (Some c) ws parent_p lsibling_p = Some ((Some e, pp', lp'), st)"
          "path st c (butlast ws) = Some par"
          "wTrie_child st (Some par) (last ws) lsibling_p = Some ((Some e, lp'), st)"
          "pp' = (if length ws = 1 then parent_p else put parent_p (Some par))"
        by blast
      from long False have len: "length ws \<noteq> 1" by (cases ws) auto
      from ih len False long v[of None] cn pth lst show ?thesis
        by (simp add: put_def)
    qed
  qed
qed

subsection \<open>Stores that lay out a forest\<close>

text \<open>
  A forest is untouched by writes outside its nodes; lookups in it are the lookups in
  the shape.
\<close>

lemma forest_frame:
  "(\<And>a. a \<in> set (nodes ts) \<Longrightarrow> heap st' a = heap st a) \<Longrightarrow> forest st' p ts = forest st p ts"
proof (induction ts arbitrary: p rule: nodes.induct)
  case 1
  then show ?case by simp
next
  case (2 a c t m kids rest)
  have a: "node_at st' a = node_at st a" using 2(3)[of a] by (simp add: node_at_def)
  have k: "\<And>q. forest st' q kids = forest st q kids" using 2(1) 2(3) by simp
  have r: "\<And>q. forest st' q rest = forest st q rest" using 2(2) 2(3) by simp
  show ?case by (simp add: a k r split: option.splits)
qed

lemma set_purge_trace: "set (purge_trace ts) = set (nodes ts) \<union> set (metas ts)"
  by (induction ts rule: nodes.induct) (auto split: option.splits)

lemma discard_node:
  assumes n: "node_at st a = Some n"
    and m: "\<And>b. meta n = Some b \<Longrightarrow> heap st b \<noteq> None \<and> b \<noteq> a"
  shows "wTrie_discard st (Some a) =
           Some (1, freed_from st ((case meta n of None \<Rightarrow> [] | Some b \<Rightarrow> [b]) @ [a]))"
proof -
  from n have h: "heap st a = Some (Node n)"
    by (auto simp: node_at_def split: option.splits obj.splits)
  show ?thesis
  proof (cases "meta n")
    case None
    with n h show ?thesis
      by (auto simp: wTrie_discard_def c_free_def freed_from_def fun_eq_iff)
  next
    case (Some b)
    with m obtain ob where "heap st b = Some ob" "b \<noteq> a" by auto
    with Some n h show ?thesis
      by (auto simp: wTrie_discard_def c_free_def freed_from_def fun_eq_iff)
  qed
qed

lemma forest_freed_from:
  "set as \<inter> set (nodes ts) = {} \<Longrightarrow> forest (freed_from st as) p ts = forest st p ts"
  by (rule forest_frame) (auto simp: freed_from_def)

lemma freed_from_append:
  "freed_from (freed_from st as) bs = freed_from st (as @ bs)"
  by (auto simp: freed_from_def fun_eq_iff)

lemma purge_forest_aux:
  "forest st p ts \<Longrightarrow> distinct (purge_trace ts) \<Longrightarrow> (\<And>b. b \<in> set (metas ts) \<Longrightarrow> heap st b \<noteq> None)
   \<Longrightarrow> (if p \<noteq> None then wTrie_purge st p else Some st) = Some (freed_from st (purge_trace ts))"
proof (induction ts arbitrary: st p rule: nodes.induct)
  case 1
  then show ?case by (simp add: freed_from_def)
next
  case (2 a c t m kids rest)
  let ?own = "(case m of None \<Rightarrow> [] | Some b \<Rightarrow> [b]) @ [a]"
  from 2(3) obtain n where p: "p = Some a" and n: "node_at st a = Some n"
    and f: "wc n = c" "termf n = t" "meta n = m"
    and fk: "forest st (child n) kids" and fr: "forest st (sibling n) rest"
    by (auto split: option.splits)
  have dist: "distinct ?own" "distinct (purge_trace rest)" "distinct (purge_trace kids)"
    "set ?own \<inter> set (purge_trace rest) = {}" "set ?own \<inter> set (purge_trace kids) = {}"
    "set (purge_trace rest) \<inter> set (purge_trace kids) = {}"
    using 2(4) by (auto split: option.splits)
  have alloc: "\<And>b. meta n = Some b \<Longrightarrow> heap st b \<noteq> None \<and> b \<noteq> a"
    using 2(4) 2(5) f by auto
  let ?st1 = "freed_from st ?own"
  have d: "wTrie_discard st (Some a) = Some (1, ?st1)"
    using discard_node[OF n alloc] f by simp
  have fr1: "forest ?st1 (sibling n) rest"
    using fr dist(4) by (subst forest_freed_from) (auto simp: set_purge_trace)
  have mr1: "\<And>b. b \<in> set (metas rest) \<Longrightarrow> heap ?st1 b \<noteq> None"
    using 2(5) dist(4) by (auto simp: freed_from_def set_purge_trace)
  let ?st2 = "freed_from ?st1 (purge_trace rest)"
  have r: "(if sibling n \<noteq> None then wTrie_purge ?st1 (sibling n) else Some ?st1) = Some ?st2"
    using 2(2)[OF fr1 dist(2) mr1] .
  have fk2: "forest ?st2 (child n) kids"
    using fk dist(5) dist(6)
    by (subst forest_freed_from, (auto simp: set_purge_trace)[1])
       (subst forest_freed_from, auto simp: set_purge_trace)
  have mk2: "\<And>b. b \<in> set (metas kids) \<Longrightarrow> heap ?st2 b \<noteq> None"
    using 2(5) dist(5) dist(6) by (auto simp: freed_from_def set_purge_trace)
  let ?st3 = "freed_from ?st2 (purge_trace kids)"
  have k: "(if child n \<noteq> None then wTrie_purge ?st2 (child n) else Some ?st2) = Some ?st3"
    using 2(1)[OF fk2 dist(3) mk2] .
  have "wTrie_purge st (Some a) = Some ?st3"
    using n d r k by (subst wTrie_purge.simps) simp
  moreover have "?st3 = freed_from st (purge_trace (AT a c t m kids # rest))"
    by (simp add: freed_from_append)
  ultimately show ?case using p by simp
qed

lemma find_sym_sym: "find_sym c ts = Some (AT a s t m kids) \<Longrightarrow> s = c"
  by (induction ts) (auto split: if_splits)

lemma forest_find:
  "forest st p ts \<Longrightarrow> find_sym c ts = Some (AT a s t m kids) \<Longrightarrow>
   \<exists>n. node_at st a = Some n \<and> wc n = c \<and> termf n = t \<and> meta n = m \<and> forest st (child n) kids"
proof (induction ts arbitrary: p)
  case Nil
  then show ?case by simp
next
  case (Cons x ts)
  obtain a' c' t' m' kids' where x: "x = AT a' c' t' m' kids'" by (cases x)
  show ?case
  proof (cases "c' = c")
    case True
    with Cons.prems x show ?thesis by (auto split: option.splits)
  next
    case False
    with Cons.prems x obtain n where "node_at st a' = Some n" "forest st (sibling n) ts"
      "find_sym c ts = Some (AT a s t m kids)"
      by (auto split: option.splits)
    with Cons.IH show ?thesis by blast
  qed
qed

lemma find_nodes:
  "find_sym c ts = Some (AT a s t m kids) \<Longrightarrow>
     a \<in> set (nodes ts) \<and> set (nodes kids) \<subseteq> set (nodes ts) \<and>
     (distinct (nodes ts) \<longrightarrow> distinct (nodes kids) \<and> a \<notin> set (nodes kids))"
proof (induction ts)
  case Nil
  then show ?case by simp
next
  case (Cons x ts)
  obtain a' c' t' m' kids' where x: "x = AT a' c' t' m' kids'" by (cases x)
  show ?case
  proof (cases "c' = c")
    case True
    with Cons.prems x show ?thesis by auto
  next
    case False
    with Cons.prems x have "find_sym c ts = Some (AT a s t m kids)" by simp
    from Cons.IH[OF this] x show ?thesis by auto
  qed
qed

lemma child_loop_forest:
  "forest st k ts \<Longrightarrow>
   wTrie_child_loop st first wch k None lsib None =
     Some (case find_sym wch ts of None \<Rightarrow> None | Some (AT a s t m kids) \<Rightarrow> Some a, None)"
proof (induction ts arbitrary: k lsib)
  case Nil
  then show ?case by (subst wTrie_child_loop.simps) simp
next
  case (Cons x ts)
  obtain a c t m kids where x: "x = AT a c t m kids" by (cases x)
  from Cons.prems x obtain n where k: "k = Some a" and n: "node_at st a = Some n" "wc n = c"
    and r: "forest st (sibling n) ts"
    by (auto split: option.splits)
  show ?case
  proof (cases "c = wch")
    case True
    with k n x show ?thesis
      by (subst wTrie_child_loop.simps) (simp add: child_loop_lost put_def)
  next
    case False
    with k n x Cons.IH[OF r] show ?thesis
      by (subst wTrie_child_loop.simps) simp
  qed
qed

lemma child_forest:
  "node_at st p = Some pn \<Longrightarrow> forest st (child pn) ts \<Longrightarrow>
   wTrie_child st (Some p) wch None =
     Some ((case find_sym wch ts of None \<Rightarrow> None | Some (AT a s t m kids) \<Rightarrow> Some a, None), st)"
  by (simp add: wTrie_child_def child_loop_forest)

lemma nodes_replace:
  "find_sym c ts = Some (AT a s t m kids) \<Longrightarrow> distinct (nodes ts) \<Longrightarrow> distinct (nodes kids') \<Longrightarrow>
   set (nodes kids') \<inter> (set (nodes ts) - set (nodes kids)) = {} \<Longrightarrow>
     distinct (nodes (replace_first c (AT a s t' m' kids') ts)) \<and>
     set (nodes (replace_first c (AT a s t' m' kids') ts)) =
       (set (nodes ts) - set (nodes kids)) \<union> set (nodes kids')"
proof (induction ts)
  case Nil
  then show ?case by simp
next
  case (Cons x ts)
  obtain a0 c0 t0 m0 k0 where x: "x = AT a0 c0 t0 m0 k0" by (cases x)
  show ?case
  proof (cases "c0 = c")
    case True
    with Cons.prems x show ?thesis by auto
  next
    case False
    with Cons.prems x have f: "find_sym c ts = Some (AT a s t m kids)" by simp
    from find_nodes[OF f] have sub: "a \<in> set (nodes ts)" "set (nodes kids) \<subseteq> set (nodes ts)"
      by auto
    from Cons.prems x have d: "distinct (nodes ts)" by simp
    from Cons.prems x sub have disj: "set (nodes kids') \<inter> (set (nodes ts) - set (nodes kids)) = {}"
      by auto
    from Cons.IH[OF f d Cons.prems(3) disj] have
      ih: "distinct (nodes (replace_first c (AT a s t' m' kids') ts))"
        "set (nodes (replace_first c (AT a s t' m' kids') ts)) =
           (set (nodes ts) - set (nodes kids)) \<union> set (nodes kids')"
      by auto
    have a0: "a0 \<notin> set (nodes kids')" "set (nodes k0) \<inter> set (nodes kids') = {}"
      using Cons.prems x sub by auto
    show ?thesis using False x ih a0 Cons.prems(2) sub by auto
  qed
qed

lemma forest_replace:
  assumes "forest st k ts" "find_sym c ts = Some (AT a s t m kids)" "distinct (nodes ts)"
    "node_at st a = Some n" "node_at st' a = Some n'" "wc n' = wc n" "sibling n' = sibling n"
    "termf n' = t'" "meta n' = m'" "forest st' (child n') kids'"
    "\<And>x. x \<in> set (nodes ts) \<Longrightarrow> x \<noteq> a \<Longrightarrow> x \<notin> set (nodes kids) \<Longrightarrow> heap st' x = heap st x"
  shows "forest st' k (replace_first c (AT a s t' m' kids') ts)"
  using assms(1,2,3,11)
proof (induction ts arbitrary: k)
  case Nil
  then show ?case by simp
next
  case (Cons x ts)
  obtain a0 c0 t0 m0 k0 where x: "x = AT a0 c0 t0 m0 k0" by (cases x)
  show ?case
  proof (cases "c0 = c")
    case True
    with Cons.prems(2) x have eq: "a0 = a" "c0 = s" "t0 = t" "m0 = m" "k0 = kids" by auto
    from Cons.prems(1) x eq assms(4) have k: "k = Some a" and w: "wc n = s"
      and r: "forest st (sibling n) ts"
      by (auto split: option.splits)
    have "forest st' (sibling n) ts = forest st (sibling n) ts"
    proof (rule forest_frame)
      fix y assume y: "y \<in> set (nodes ts)"
      with Cons.prems(3) x eq have "y \<noteq> a" "y \<notin> set (nodes kids)" by auto
      with y x show "heap st' y = heap st y" using Cons.prems(4)[of y] by simp
    qed
    with r have "forest st' (sibling n') ts" using assms(7) by simp
    with True x eq k w assms(5,6,8,9,10) show ?thesis by simp
  next
    case False
    with Cons.prems(2) x have f: "find_sym c ts = Some (AT a s t m kids)" by simp
    from find_nodes[OF f] have sub: "a \<in> set (nodes ts)" "set (nodes kids) \<subseteq> set (nodes ts)"
      by auto
    from Cons.prems(1) x obtain n0 where k: "k = Some a0" and n0: "node_at st a0 = Some n0"
      "wc n0 = c0" "termf n0 = t0" "meta n0 = m0"
      and fk: "forest st (child n0) k0" and fr: "forest st (sibling n0) ts"
      by (auto split: option.splits)
    from Cons.prems(3) x sub have a0: "a0 \<noteq> a" "a0 \<notin> set (nodes kids)" by auto
    have "heap st' a0 = heap st a0" using Cons.prems(4)[of a0] a0 x by simp
    then have n0': "node_at st' a0 = Some n0" using n0 by (simp add: node_at_def)
    have "forest st' (child n0) k0 = forest st (child n0) k0"
    proof (rule forest_frame)
      fix y assume y: "y \<in> set (nodes k0)"
      with Cons.prems(3) x sub have "y \<noteq> a" "y \<notin> set (nodes kids)" by auto
      with y x show "heap st' y = heap st y" using Cons.prems(4)[of y] by simp
    qed
    with fk have fk': "forest st' (child n0) k0" by simp
    have d: "distinct (nodes ts)" using Cons.prems(3) x by simp
    have fr': "forest st' (sibling n0) (replace_first c (AT a s t' m' kids') ts)"
    proof (rule Cons.IH[OF fr f d])
      fix y assume "y \<in> set (nodes ts)" "y \<noteq> a" "y \<notin> set (nodes kids)"
      then show "heap st' y = heap st y" using Cons.prems(4)[of y] x by simp
    qed
    show ?thesis using False x k n0' n0 fk' fr' by simp
  qed
qed

lemma rOK_forest:
  "forest st p ts \<Longrightarrow> p \<noteq> None \<Longrightarrow> wTrie_rOK st p = Some 1"
proof (induction ts arbitrary: p rule: nodes.induct)
  case 1
  then show ?case by simp
next
  case (2 a c t m kids rest)
  from 2(3) obtain n where p: "p = Some a" and n: "node_at st a = Some n"
    and fk: "forest st (child n) kids" and fr: "forest st (sibling n) rest"
    by (auto split: option.splits)
  have s: "sibling n \<noteq> None \<Longrightarrow> wTrie_rOK st (sibling n) = Some 1" using 2(2)[OF fr] .
  have k: "child n \<noteq> None \<Longrightarrow> wTrie_rOK st (child n) = Some 1" using 2(1)[OF fk] .
  show ?case using p n s k by (subst wTrie_rOK.simps) auto
qed

text \<open>
  What \<^verbatim>\<open>wTrie_child\<close> stores in a supplied output variable, in general: when the
  symbol occurs first after the children \<open>pre\<close>, the variable receives the last node of
  \<open>pre\<close> if \<open>pre\<close> has two nodes or more, and \<^verbatim>\<open>NULL\<close> if \<open>pre\<close> is empty or is
  the head of the list alone.
\<close>

lemma child_loop_lsib_suffix:
  "forest st cur (pre @ AT a wch t m kids # post) \<Longrightarrow> wch \<notin> sym ` set pre \<Longrightarrow>
   \<forall>x\<in>set pre. Some (addr_of x) \<noteq> first \<Longrightarrow>
   wTrie_child_loop st first wch cur None lsib (Some v) =
     Some (Some a, Some (if pre = [] then lsib else Some (addr_of (last pre))))"
proof (induction pre arbitrary: cur lsib)
  case Nil
  then obtain n where "cur = Some a" "node_at st a = Some n" "wc n = wch"
    by (auto split: option.splits)
  then show ?case
    by (subst wTrie_child_loop.simps) (simp add: child_loop_lost put_def)
next
  case (Cons x pre)
  obtain a0 c0 t0 m0 k0 where x: "x = AT a0 c0 t0 m0 k0" by (cases x)
  from Cons.prems(1) x obtain n where cur: "cur = Some a0" and n: "node_at st a0 = Some n"
    "wc n = c0" and r: "forest st (sibling n) (pre @ AT a wch t m kids # post)"
    by (auto split: option.splits)
  from Cons.prems(2) x have c0: "c0 \<noteq> wch" "wch \<notin> sym ` set pre" by auto
  from Cons.prems(3) x cur have nf: "cur \<noteq> first" "\<forall>x\<in>set pre. Some (addr_of x) \<noteq> first"
    by auto
  from Cons.IH[OF r c0(2) nf(2), of cur] cur n c0(1) nf(1) x show ?case
    by (subst wTrie_child_loop.simps) simp
qed

lemma child_lsibling_forest:
  assumes "node_at st p = Some pn" "forest st (child pn) (pre @ AT a wch t m kids # post)"
    "distinct (nodes (pre @ AT a wch t m kids # post))" "wch \<notin> sym ` set pre"
  shows "wTrie_child st (Some p) wch (Some v) =
           Some ((Some a, Some (if length pre \<le> 1 then None else Some (addr_of (last pre)))), st)"
proof (cases pre)
  case Nil
  with assms(2) obtain n where "child pn = Some a" "node_at st a = Some n" "wc n = wch"
    by (auto split: option.splits)
  with Nil assms(1) show ?thesis
    by (simp add: wTrie_child_def) (subst wTrie_child_loop.simps, simp add: child_loop_lost put_def)
next
  case (Cons x pre')
  obtain a0 c0 t0 m0 k0 where x: "x = AT a0 c0 t0 m0 k0" by (cases x)
  from assms(2) Cons x obtain n where hd: "child pn = Some a0" and n: "node_at st a0 = Some n"
    "wc n = c0" and r: "forest st (sibling n) (pre' @ AT a wch t m kids # post)"
    by (auto split: option.splits)
  from assms(4) Cons x have c0: "c0 \<noteq> wch" "wch \<notin> sym ` set pre'" by auto
  have roots: "\<And>y. y \<in> set pre' \<Longrightarrow> addr_of y \<in> set (nodes pre')"
  proof -
    fix y show "y \<in> set pre' \<Longrightarrow> addr_of y \<in> set (nodes pre')"
    proof (induction pre')
      case Nil
      then show ?case by simp
    next
      case (Cons z zs)
      then show ?case by (cases z) auto
    qed
  qed
  have nodes_app: "\<And>xs ys. set (nodes (xs @ ys)) = set (nodes xs) \<union> set (nodes ys)"
  proof -
    fix xs ys show "set (nodes (xs @ ys)) = set (nodes xs) \<union> set (nodes ys)"
    proof (induction xs)
      case Nil
      then show ?case by simp
    next
      case (Cons z zs)
      then show ?case by (cases z) auto
    qed
  qed
  from assms(3) Cons x have "a0 \<notin> set (nodes (pre' @ AT a wch t m kids # post))" by simp
  then have "a0 \<notin> set (nodes pre')" by (simp add: nodes_app)
  with roots have nf: "\<forall>y\<in>set pre'. Some (addr_of y) \<noteq> Some a0" by auto
  from child_loop_lsib_suffix[OF r c0(2) nf, of None v]
  have "wTrie_child_loop st (Some a0) wch (sibling n) None None (Some v) =
     Some (Some a, Some (if pre' = [] then None else Some (addr_of (last pre'))))" .
  with hd n c0(1) have "wTrie_child_loop st (child pn) wch (child pn) None None (Some v) =
     Some (Some a, Some (if pre' = [] then None else Some (addr_of (last pre'))))"
    by (subst wTrie_child_loop.simps) simp
  with assms(1) Cons show ?thesis by (simp add: wTrie_child_def)
qed

subsection \<open>Purge\<close>

text \<open>
  C8, counterexample. Insert \<open>a\<close>, then \<open>bc\<close> (root 1; \<open>a\<close> at 2, \<open>b\<close> at 3 with
  sibling 2 and child 4, \<open>c\<close> at 4) and purge the root. The nodes are freed in the order
  1, 3, 2, 4: every node before its siblings and its children, not after them.
\<close>

theorem purge_frees_node_first:
  "purge_order =
     Some ([Some \<lparr>wc = 0, sibling = None, child = Some 3, termf = False, meta = None\<rparr>,
            Some \<lparr>wc = 97, sibling = None, child = None, termf = True, meta = None\<rparr>,
            Some \<lparr>wc = 98, sibling = Some 2, child = Some 4, termf = False, meta = None\<rparr>,
            Some \<lparr>wc = 99, sibling = None, child = None, termf = True, meta = None\<rparr>],
           Some [1, 3, 2, 4])"
  by code_simp

text \<open>
  C8, as amended. Let the store lay out a forest whose first tree is the node \<open>a\<close> with
  children \<open>kids\<close> and following siblings \<open>rest\<close>, all nodes and payload buffers being
  distinct and the buffers allocated. Then \<^verbatim>\<open>wTrie_purge\<close> returns; it frees the
  payload of \<open>a\<close> and \<open>a\<close> itself first, then the sibling chain, then the child subtree
  (each in the same order, recursively), and exactly these addresses leave the store.
\<close>

theorem purge_node_siblings_children:
  assumes "forest st p (AT a c t m kids # rest)"
    and "distinct (purge_trace (AT a c t m kids # rest))"
    and "\<forall>b\<in>set (metas (AT a c t m kids # rest)). heap st b \<noteq> None"
  shows "\<exists>st'. wTrie_purge st p = Some st' \<and>
           freed st' =
             freed st @ (case m of None \<Rightarrow> [] | Some b \<Rightarrow> [b]) @ [a] @
               purge_trace rest @ purge_trace kids \<and>
           (\<forall>x. heap st' x =
                  (if x \<in> set (purge_trace (AT a c t m kids # rest)) then None else heap st x))"
proof -
  from assms(1) have p: "p \<noteq> None" by auto
  from assms(3) have al: "\<And>b. b \<in> set (metas (AT a c t m kids # rest)) \<Longrightarrow> heap st b \<noteq> None"
    by blast
  from purge_forest_aux[OF assms(1,2) al] p
  have "wTrie_purge st p = Some (freed_from st (purge_trace (AT a c t m kids # rest)))"
    by simp
  then show ?thesis by (simp add: freed_from_def)
qed

text \<open>
  An instance: the trie that holds \<open>a\<close> and \<open>bc\<close>, purged from the root.
\<close>

theorem purge_node_siblings_children_witness:
  "forest (built [''a'', ''bc'']) (Some 1)
     [AT 1 0 False None [AT 3 98 False None [AT 4 99 True None []], AT 2 97 True None []]] \<and>
   map_option freed (wTrie_purge (built [''a'', ''bc'']) (Some 1)) = Some [1, 3, 2, 4] \<and>
   map_option (\<lambda>st. map (heap st) [1, 2, 3, 4]) (wTrie_purge (built [''a'', ''bc'']) (Some 1)) =
     Some [None, None, None, None]"
proof -
  let ?st = "built [''a'', ''bc'']"
  have f: "forest ?st (Some 1)
     (AT 1 0 False None [AT 3 98 False None [AT 4 99 True None []], AT 2 97 True None []] # [])"
    by (simp add: run_defs)
  have d: "distinct (purge_trace
     (AT 1 0 False None [AT 3 98 False None [AT 4 99 True None []], AT 2 97 True None []] # []))"
    by simp
  have m: "\<forall>b\<in>set (metas
     (AT 1 0 False None [AT 3 98 False None [AT 4 99 True None []], AT 2 97 True None []] # [])).
       heap ?st b \<noteq> None"
    by simp
  have e: "freed ?st = []" by (simp add: run_defs)
  from purge_node_siblings_children[OF f d m] e f show ?thesis by auto
qed

subsection \<open>Insertion on a well-formed trie\<close>

text \<open>
  \<^verbatim>\<open>wTrie_addword\<close> of a non-empty word returns on a well-formed trie, and the new
  store lays out the forest \<open>a_add\<close> computes; it writes only to the nodes below the
  starting node, to that node's \<^verbatim>\<open>child\<close> link and to fresh addresses.
\<close>

lemma addword_refine:
  assumes "node_at st p = Some pn" "forest st (child pn) ts" "distinct (nodes ts)"
    "p \<notin> set (nodes ts)" "\<forall>a\<in>set (nodes ts). a < brk st" "p < brk st" "w \<noteq> []"
  shows "\<exists>e st' k'. wTrie_addword st (Some p) w = Some (Some e, st') \<and>
           node_at st' p = Some (pn\<lparr>child := k'\<rparr>) \<and>
           forest st' k' (a_add (brk st) ts w) \<and>
           distinct (nodes (a_add (brk st) ts w)) \<and>
           set (nodes (a_add (brk st) ts w)) \<subseteq> set (nodes ts) \<union> {brk st..<brk st'} \<and>
           brk st \<le> brk st' \<and>
           (\<forall>x. x < brk st \<longrightarrow> x \<noteq> p \<longrightarrow> x \<notin> set (nodes ts) \<longrightarrow> heap st' x = heap st x)"
  using assms
proof (induction w arbitrary: st p pn ts)
  case Nil
  then show ?case by simp
next
  case (Cons c cs)
  note pn = Cons.prems(1) and fo = Cons.prems(2) and di = Cons.prems(3)
    and pnot = Cons.prems(4) and lt = Cons.prems(5) and plt = Cons.prems(6)
  show ?case
  proof (cases "find_sym c ts")
    case None
    let ?b = "brk st"
    let ?st1 = "spawned st p pn c (cs = [])"
    let ?nb = "\<lparr>wc = c, sibling = child pn, child = None, termf = (cs = []), meta = None\<rparr>"
    from child_forest[OF pn fo, of c] None
    have ch: "wTrie_child st (Some p) c None = Some ((None, None), st)" by simp
    from plt have pb: "p \<noteq> ?b" by simp
    have sp: "wTrie_spawn st False (Some p) c (cs = []) None 0 = Some (Some ?b, ?st1)"
      using spawn_new[OF ch pn pb] .
    have nb1: "node_at ?st1 ?b = Some ?nb" using pb by (simp add: spawned_def node_at_def)
    have p1: "node_at ?st1 p = Some (pn\<lparr>child := Some ?b\<rparr>)"
      by (simp add: spawned_def node_at_def)
    have brk1: "brk ?st1 = Suc ?b" by (simp add: spawned_def)
    have fr1: "\<And>x. x \<noteq> p \<Longrightarrow> x \<noteq> ?b \<Longrightarrow> heap ?st1 x = heap st x"
      by (simp add: spawned_def)
    have bnot: "?b \<notin> set (nodes ts)" using lt by auto
    have fts1: "forest ?st1 (child pn) ts"
      using fo pnot bnot by (subst forest_frame[of ts _ st]) (auto simp: spawned_def)
    show ?thesis
    proof (cases "cs = []")
      case True
      have "wTrie_addword st (Some p) (c # cs) = Some (Some ?b, ?st1)"
        using True sp by simp
      moreover have "forest ?st1 (Some ?b) (a_add ?b ts (c # cs))"
        using None True nb1 fts1 by simp
      moreover have "distinct (nodes (a_add ?b ts (c # cs)))"
        using None True di bnot by simp
      moreover have "set (nodes (a_add ?b ts (c # cs))) \<subseteq> set (nodes ts) \<union> {?b..<brk ?st1}"
        using None True brk1 by auto
      moreover have "\<forall>x. x < ?b \<longrightarrow> x \<noteq> p \<longrightarrow> x \<notin> set (nodes ts) \<longrightarrow> heap ?st1 x = heap st x"
        using fr1 by auto
      ultimately show ?thesis using p1 brk1 by (intro exI[of _ ?b] exI[of _ ?st1] exI[of _ "Some ?b"]) simp
    next
      case False
      have emp: "forest ?st1 (child ?nb) []" by simp
      from Cons.IH[OF nb1 emp _ _ _ _ False] brk1
      obtain e st' k2 where
        ih: "wTrie_addword ?st1 (Some ?b) cs = Some (Some e, st')"
          "node_at st' ?b = Some (?nb\<lparr>child := k2\<rparr>)"
          "forest st' k2 (a_add (Suc ?b) [] cs)"
          "distinct (nodes (a_add (Suc ?b) [] cs))"
          "set (nodes (a_add (Suc ?b) [] cs)) \<subseteq> {Suc ?b..<brk st'}"
          "Suc ?b \<le> brk st'"
          "\<And>x. x < Suc ?b \<Longrightarrow> x \<noteq> ?b \<Longrightarrow> heap st' x = heap ?st1 x"
        by auto
      let ?kids = "a_add (Suc ?b) [] cs"
      have aw: "wTrie_addword st (Some p) (c # cs) = Some (Some e, st')"
        using False sp ih(1) by simp
      have p': "node_at st' p = Some (pn\<lparr>child := Some ?b\<rparr>)"
        using ih(7)[of p] plt pb p1 by (simp add: node_at_def)
      have fts': "forest st' (child pn) ts"
      proof (subst forest_frame[of ts _ st])
        fix a assume a: "a \<in> set (nodes ts)"
        with lt have "a < ?b" by auto
        with a pnot show "heap st' a = heap st a" using ih(7)[of a] fr1[of a] by auto
      qed (rule fo)
      have f': "forest st' (Some ?b) (a_add ?b ts (c # cs))"
        using None False ih(2) ih(3) fts' by simp
      have sep: "\<And>x. x \<in> set (nodes ?kids) \<Longrightarrow> x \<notin> set (nodes ts) \<and> x \<noteq> ?b"
      proof -
        fix x assume "x \<in> set (nodes ?kids)"
        with ih(5) have "Suc ?b \<le> x" by auto
        with lt show "x \<notin> set (nodes ts) \<and> x \<noteq> ?b" by fastforce
      qed
      have d': "distinct (nodes (a_add ?b ts (c # cs)))"
        using None False di bnot ih(4) sep by auto
      have s': "set (nodes (a_add ?b ts (c # cs))) \<subseteq> set (nodes ts) \<union> {?b..<brk st'}"
        using None False ih(5) ih(6) by (auto simp: subset_iff)
      have fr': "\<forall>x. x < ?b \<longrightarrow> x \<noteq> p \<longrightarrow> x \<notin> set (nodes ts) \<longrightarrow> heap st' x = heap st x"
        using ih(7) fr1 by auto
      show ?thesis using aw p' f' d' s' fr' ih(6)
        by (intro exI[of _ e] exI[of _ st'] exI[of _ "Some ?b"]) simp
    qed
  next
    case (Some x)
    obtain a s t m kids where x: "x = AT a s t m kids" by (cases x)
    with Some have fs: "find_sym c ts = Some (AT a s t m kids)" by simp
    from find_sym_sym[OF fs] have s: "s = c" .
    from forest_find[OF fo fs] obtain n where n: "node_at st a = Some n" "wc n = c"
      "termf n = t" "meta n = m" and fk: "forest st (child n) kids" by blast
    from find_nodes[OF fs] di have an: "a \<in> set (nodes ts)" "set (nodes kids) \<subseteq> set (nodes ts)"
      "distinct (nodes kids)" "a \<notin> set (nodes kids)" by auto
    from an pnot have pa: "p \<noteq> a" by auto
    from child_forest[OF pn fo, of c] fs
    have ch: "wTrie_child st (Some p) c None = Some ((Some a, None), st)" by simp
    let ?n1 = "n\<lparr>termf := (cs = []), meta := None\<rparr>"
    let ?st1 = "store st a ?n1"
    have sp: "wTrie_spawn st False (Some p) c (cs = []) None 0 = Some (Some a, ?st1)"
      using spawn_lax_found[OF ch n(1)] .
    have a1: "node_at ?st1 a = Some ?n1" by (simp add: node_at_store)
    have brk1: "brk ?st1 = brk st" by (simp add: store_def)
    have fr1: "\<And>x. x \<noteq> a \<Longrightarrow> heap ?st1 x = heap st x" by (simp add: store_def)
    have fk1: "forest ?st1 (child ?n1) kids"
      using fk an(4) by (subst forest_frame[of kids _ st]) (auto simp: store_def)
    show ?thesis
    proof (cases "cs = []")
      case True
      have aw: "wTrie_addword st (Some p) (c # cs) = Some (Some a, ?st1)"
        using True sp by simp
      have p': "node_at ?st1 p = Some (pn\<lparr>child := child pn\<rparr>)"
        using pa pn by (simp add: node_at_store)
      have f': "forest ?st1 (child pn) (replace_first c (AT a s True None kids) ts)"
        by (rule forest_replace[OF fo fs di n(1) a1 _ _ _ _ _ ])
           (use fk1 True fr1 in \<open>auto\<close>)
      from nodes_replace[OF fs di an(3), of True None] an
      have nr: "distinct (nodes (replace_first c (AT a s True None kids) ts))"
        "set (nodes (replace_first c (AT a s True None kids) ts)) = set (nodes ts)"
        by auto
      have fr': "\<forall>x. x < brk st \<longrightarrow> x \<noteq> p \<longrightarrow> x \<notin> set (nodes ts) \<longrightarrow> heap ?st1 x = heap st x"
      proof (intro allI impI)
        fix x assume "x \<notin> set (nodes ts)"
        with an(1) have "x \<noteq> a" by auto
        then show "heap ?st1 x = heap st x" by (rule fr1)
      qed
      show ?thesis using aw p' f' nr fs True fr'
        by (intro exI[of _ a] exI[of _ ?st1] exI[of _ "child pn"]) (simp add: brk_store)
    next
      case False
      have lt1: "\<forall>x\<in>set (nodes kids). x < brk ?st1" using lt an(2) brk1 by auto
      have alt: "a < brk ?st1" using lt an(1) brk1 by auto
      from Cons.IH[OF a1 fk1 an(3) an(4) lt1 alt False] brk1
      obtain e st' k2 where
        ih: "wTrie_addword ?st1 (Some a) cs = Some (Some e, st')"
          "node_at st' a = Some (?n1\<lparr>child := k2\<rparr>)"
          "forest st' k2 (a_add (brk st) kids cs)"
          "distinct (nodes (a_add (brk st) kids cs))"
          "set (nodes (a_add (brk st) kids cs)) \<subseteq> set (nodes kids) \<union> {brk st..<brk st'}"
          "brk st \<le> brk st'"
          "\<And>x. x < brk st \<Longrightarrow> x \<noteq> a \<Longrightarrow> x \<notin> set (nodes kids) \<Longrightarrow> heap st' x = heap ?st1 x"
        by auto
      let ?kids = "a_add (brk st) kids cs"
      have aw: "wTrie_addword st (Some p) (c # cs) = Some (Some e, st')"
        using False sp ih(1) by simp
      have "heap st' p = heap st p"
        using ih(7)[of p] fr1[of p] plt pa pnot an(2) by auto
      then have p': "node_at st' p = Some (pn\<lparr>child := child pn\<rparr>)"
        using pn by (simp add: node_at_def)
      have f': "forest st' (child pn) (replace_first c (AT a s False None ?kids) ts)"
      proof (rule forest_replace[OF fo fs di n(1) ih(2)])
        fix y assume "y \<in> set (nodes ts)" "y \<noteq> a" "y \<notin> set (nodes kids)"
        then show "heap st' y = heap st y" using ih(7)[of y] fr1[of y] lt by auto
      qed (use ih(3) False in \<open>auto\<close>)
      have disj: "set (nodes ?kids) \<inter> (set (nodes ts) - set (nodes kids)) = {}"
      proof -
        have "\<And>x. x \<in> set (nodes ?kids) \<Longrightarrow> x \<in> set (nodes ts) \<Longrightarrow> x \<in> set (nodes kids)"
        proof -
          fix x assume x: "x \<in> set (nodes ?kids)" "x \<in> set (nodes ts)"
          with lt have "x < brk st" by auto
          with x(1) ih(5) show "x \<in> set (nodes kids)" by auto
        qed
        then show ?thesis by auto
      qed
      from nodes_replace[OF fs di ih(4) disj, of False None]
      have nr: "distinct (nodes (replace_first c (AT a s False None ?kids) ts))"
        "set (nodes (replace_first c (AT a s False None ?kids) ts)) =
           (set (nodes ts) - set (nodes kids)) \<union> set (nodes ?kids)"
        by auto
      have s': "set (nodes (replace_first c (AT a s False None ?kids) ts))
                  \<subseteq> set (nodes ts) \<union> {brk st..<brk st'}"
        using nr(2) ih(5) an(2) by blast
      have fr': "\<forall>x. x < brk st \<longrightarrow> x \<noteq> p \<longrightarrow> x \<notin> set (nodes ts) \<longrightarrow> heap st' x = heap st x"
      proof (intro allI impI)
        fix x assume x: "x < brk st" "x \<notin> set (nodes ts)"
        with an(1,2) have xa: "x \<noteq> a" "x \<notin> set (nodes kids)" by auto
        with x ih(7)[of x] fr1[of x] show "heap st' x = heap st x" by simp
      qed
      show ?thesis using aw p' f' nr(1) s' fr' ih(6) fs False
        by (intro exI[of _ e] exI[of _ st'] exI[of _ "child pn"]) simp
    qed
  qed
qed

lemma findword_forest:
  "node_at st r = Some rn \<Longrightarrow> forest st (child rn) ts \<Longrightarrow> w \<noteq> [] \<Longrightarrow>
   wTrie_findword st (Some r) w =
     Some (case a_find ts w of
             None \<Rightarrow> (None, st\<lparr>errno := I_WTRIE_NOSUCHWORD\<rparr>)
           | Some e \<Rightarrow> (Some e, st))"
proof (induction w arbitrary: r rn ts)
  case Nil
  then show ?case by simp
next
  case (Cons c cs)
  note ch = child_forest[OF Cons.prems(1,2), of c]
  show ?case
  proof (cases "find_sym c ts")
    case None
    with ch show ?thesis by (simp add: a_find_def)
  next
    case (Some x)
    obtain a s t m kids where x: "x = AT a s t m kids" by (cases x)
    with Some have fs: "find_sym c ts = Some (AT a s t m kids)" by simp
    from forest_find[OF Cons.prems(2) fs] obtain n where n: "node_at st a = Some n"
      "termf n = t" and fk: "forest st (child n) kids" by blast
    show ?thesis
    proof (cases "cs = []")
      case True
      with ch fs n show ?thesis by (simp add: a_find_def)
    next
      case False
      from Cons.IH[OF n(1) fk False] ch fs n False show ?thesis
        by (simp add: a_find_def)
    qed
  qed
qed

lemma path_forest:
  "node_at st r = Some rn \<Longrightarrow> forest st (child rn) ts \<Longrightarrow> w \<noteq> [] \<Longrightarrow>
   path st r w = map_option addr_of (a_walk ts w)"
proof (induction w arbitrary: r rn ts)
  case Nil
  then show ?case by simp
next
  case (Cons c cs)
  note ch = child_forest[OF Cons.prems(1,2), of c]
  show ?case
  proof (cases "find_sym c ts")
    case None
    with ch show ?thesis by simp
  next
    case (Some x)
    obtain a s t m kids where x: "x = AT a s t m kids" by (cases x)
    with Some have fs: "find_sym c ts = Some (AT a s t m kids)" by simp
    from forest_find[OF Cons.prems(2) fs] obtain n where n: "node_at st a = Some n"
      and fk: "forest st (child n) kids" by blast
    show ?thesis
    proof (cases "cs = []")
      case True
      with ch fs show ?thesis by simp
    next
      case False
      from Cons.IH[OF n fk False] ch fs False show ?thesis by simp
    qed
  qed
qed

lemma forest_walk:
  "forest st k ts \<Longrightarrow> a_walk ts w = Some (AT x s t m kids) \<Longrightarrow>
   \<exists>n. node_at st x = Some n \<and> wc n = s \<and> termf n = t \<and> meta n = m"
proof (induction w arbitrary: k ts)
  case Nil
  then show ?case by simp
next
  case (Cons c cs)
  from Cons.prems(2) obtain a0 s0 t0 m0 k0 where fs: "find_sym c ts = Some (AT a0 s0 t0 m0 k0)"
    by (auto split: option.splits atree.splits)
  from forest_find[OF Cons.prems(1) fs] find_sym_sym[OF fs] obtain n where
    n: "node_at st a0 = Some n" "wc n = s0" "termf n = t0" "meta n = m0"
    and fk: "forest st (child n) k0" by blast
  show ?case
  proof (cases "cs = []")
    case True
    with Cons.prems(2) fs n show ?thesis by simp
  next
    case False
    with Cons.prems(2) fs have "a_walk k0 cs = Some (AT x s t m kids)" by simp
    from Cons.IH[OF fk this] show ?thesis .
  qed
qed

lemma find_replace:
  "find_sym c ts = Some t0 \<Longrightarrow> sym t' = c \<Longrightarrow> find_sym c (replace_first c t' ts) = Some t'"
  by (induction ts) auto

lemma walk_add:
  "a_walk ts p = Some (AT x s t m kids) \<Longrightarrow> u \<noteq> [] \<Longrightarrow>
   \<exists>kids'. a_walk (a_add b ts (p @ u)) p = Some (AT x s False None kids')"
proof (induction p arbitrary: ts)
  case Nil
  then show ?case by simp
next
  case (Cons c cs)
  from Cons.prems(1) obtain a0 s0 t0 m0 k0 where fs: "find_sym c ts = Some (AT a0 s0 t0 m0 k0)"
    by (auto split: option.splits atree.splits)
  from find_sym_sym[OF fs] have s0: "s0 = c" .
  let ?t' = "AT a0 s0 False None (a_add b k0 (cs @ u))"
  have add: "a_add b ts ((c # cs) @ u) = replace_first c ?t' ts"
    using fs Cons.prems(2) by simp
  have fr: "find_sym c (replace_first c ?t' ts) = Some ?t'"
    using find_replace[OF fs, of ?t'] s0 by simp
  show ?case
  proof (cases "cs = []")
    case True
    with Cons.prems(1) fs have "x = a0" "s = s0" by auto
    with True add fr show ?thesis by simp
  next
    case False
    with Cons.prems(1) fs have "a_walk k0 cs = Some (AT x s t m kids)" by simp
    from Cons.IH[OF this Cons.prems(2)] False add fr show ?thesis by simp
  qed
qed

lemma trie_addword:
  assumes "trie st r ts" "w \<noteq> []"
  shows "\<exists>e st'. wTrie_addword st (Some r) w = Some (Some e, st') \<and>
           trie st' r (a_add (brk st) ts w)"
proof -
  from assms(1) obtain rn where rn: "node_at st r = Some rn" and fo: "forest st (child rn) ts"
    and di: "distinct (nodes ts)" and rnot: "r \<notin> set (nodes ts)"
    and lt: "\<forall>a\<in>set (nodes ts). a < brk st" and rlt: "r < brk st"
    by (auto simp: trie_def split: option.splits)
  from addword_refine[OF rn fo di rnot lt rlt assms(2)] obtain e st' k' where
    r: "wTrie_addword st (Some r) w = Some (Some e, st')"
      "node_at st' r = Some (rn\<lparr>child := k'\<rparr>)"
      "forest st' k' (a_add (brk st) ts w)"
      "distinct (nodes (a_add (brk st) ts w))"
      "set (nodes (a_add (brk st) ts w)) \<subseteq> set (nodes ts) \<union> {brk st..<brk st'}"
      "brk st \<le> brk st'"
    by blast
  have "r \<notin> set (nodes (a_add (brk st) ts w))" using r(5) rnot rlt by auto
  moreover have "\<forall>a\<in>set (r # nodes (a_add (brk st) ts w)). a < brk st'"
    using r(5) r(6) lt rlt by fastforce
  ultimately have "trie st' r (a_add (brk st) ts w)"
    using r(2,3,4) by (simp add: trie_def)
  with r(1) show ?thesis by blast
qed

lemma trie_new: "new_trie = Some (Some 1, snd (the new_trie)) \<and> trie (snd (the new_trie)) 1 []"
  by (simp add: new_trie_def fresh_def c_calloc_def wTrie_init_def node_at_def store_def
      zero_node_def trie_def)

lemma trie_insert_all:
  "trie st r ts \<Longrightarrow> \<forall>w\<in>set ws. w \<noteq> [] \<Longrightarrow> \<exists>st' ts'. insert_all st (Some r) ws = Some st' \<and> trie st' r ts'"
proof (induction ws arbitrary: st ts)
  case Nil
  then show ?case by auto
next
  case (Cons w ws)
  from Cons.prems have "w \<noteq> []" by simp
  from trie_addword[OF Cons.prems(1) this] obtain e st1 where
    a: "wTrie_addword st (Some r) w = Some (Some e, st1)" "trie st1 r (a_add (brk st) ts w)"
    by blast
  from Cons.IH[OF a(2)] Cons.prems(2) obtain st' ts' where
    "insert_all st1 (Some r) ws = Some st'" "trie st' r ts'" by auto
  with a(1) show ?case by auto
qed

lemma trie_build:
  assumes "\<forall>w\<in>set ws. w \<noteq> []"
  shows "\<exists>ts. build ws = Some (Some 1, built ws) \<and> trie (built ws) 1 ts"
proof -
  from trie_new obtain st0 where n: "new_trie = Some (Some 1, st0)" "trie st0 1 []" by blast
  from assms have "\<forall>w\<in>set (map wstr ws). w \<noteq> []" by (auto simp: wstr_def)
  from trie_insert_all[OF n(2) this] obtain st' ts' where
    i: "insert_all st0 (Some 1) (map wstr ws) = Some st'" "trie st' 1 ts'" by blast
  have b: "build ws = Some (Some 1, st')" using i(1) by (simp add: build_def n(1))
  then have "built ws = st'" by (simp add: built_def)
  with b i(2) show ?thesis by auto
qed

text \<open>
  C5. In a well-formed trie let \<open>x\<close> be the node at the end of the path of a non-empty
  word \<open>p\<close>, and let \<open>u\<close> be non-empty. \<^verbatim>\<open>wTrie_addword\<close> of \<open>p @ u\<close> returns a node,
  and afterwards the terminal flag of \<open>x\<close> is clear and its payload pointer is
  \<^verbatim>\<open>NULL\<close>, so that \<^verbatim>\<open>wTrie_findword\<close> of \<open>p\<close> returns \<^verbatim>\<open>NULL\<close> with
  \<^verbatim>\<open>I_WTRIE_NOSUCHWORD\<close>. If \<open>p\<close> was a stored word, \<open>x\<close> is its terminal node.
\<close>

theorem addword_clears_prefix_nodes:
  assumes "trie st r ts" "p \<noteq> []" "u \<noteq> []" "path st r p = Some x"
  shows "\<exists>e st'. wTrie_addword st (Some r) (p @ u) = Some (Some e, st') \<and>
           (\<exists>n. node_at st' x = Some n \<and> \<not> termf n \<and> meta n = None) \<and>
           wTrie_findword st' (Some r) p = Some (None, st'\<lparr>errno := I_WTRIE_NOSUCHWORD\<rparr>) \<and>
           (\<forall>y st1. wTrie_findword st (Some r) p = Some (Some y, st1) \<longrightarrow> y = x)"
proof -
  from assms(1) obtain rn where rn: "node_at st r = Some rn" and fo: "forest st (child rn) ts"
    by (auto simp: trie_def split: option.splits)
  from path_forest[OF rn fo assms(2)] assms(4) obtain tx where
    tx: "a_walk ts p = Some tx" "addr_of tx = x"
    by (cases "a_walk ts p") auto
  then obtain s t m kids where w: "a_walk ts p = Some (AT x s t m kids)"
    by (cases tx) auto
  from assms(2,3) have pu: "p @ u \<noteq> []" by simp
  from trie_addword[OF assms(1) pu] obtain e st' where
    aw: "wTrie_addword st (Some r) (p @ u) = Some (Some e, st')"
    and tr: "trie st' r (a_add (brk st) ts (p @ u))" by blast
  from tr obtain rn' where rn': "node_at st' r = Some rn'"
    and fo': "forest st' (child rn') (a_add (brk st) ts (p @ u))"
    by (auto simp: trie_def split: option.splits)
  from walk_add[OF w assms(3)] obtain kids' where
    w': "a_walk (a_add (brk st) ts (p @ u)) p = Some (AT x s False None kids')" by blast
  from forest_walk[OF fo' w'] have cleared: "\<exists>n. node_at st' x = Some n \<and> \<not> termf n \<and> meta n = None"
    by auto
  have lost: "wTrie_findword st' (Some r) p = Some (None, st'\<lparr>errno := I_WTRIE_NOSUCHWORD\<rparr>)"
    using findword_forest[OF rn' fo' assms(2)] w' by (simp add: a_find_def)
  have same: "\<forall>y st1. wTrie_findword st (Some r) p = Some (Some y, st1) \<longrightarrow> y = x"
    using findword_forest[OF rn fo assms(2)] w by (auto simp: a_find_def split: if_splits)
  from aw cleared lost same show ?thesis by blast
qed

text \<open>
  An instance: the trie that holds \<open>do\<close> (root 1, \<open>d\<close> at 2, \<open>o\<close> at 3), into which
  \<open>dog\<close> is inserted.
\<close>

theorem addword_clears_prefix_nodes_witness:
  "trie (built [''do'']) 1 [AT 2 100 False None [AT 3 111 True None []]] \<and>
   path (built [''do'']) 1 (wstr ''do'') = Some 3 \<and>
   (\<exists>e st'. wTrie_addword (built [''do'']) (Some 1) (wstr ''do'' @ wstr ''g'') = Some (Some e, st') \<and>
      (\<exists>n. node_at st' 3 = Some n \<and> \<not> termf n \<and> meta n = None) \<and>
      wTrie_findword st' (Some 1) (wstr ''do'') = Some (None, st'\<lparr>errno := I_WTRIE_NOSUCHWORD\<rparr>))"
proof -
  let ?st = "built [''do'']"
  have t: "trie ?st 1 [AT 2 100 False None [AT 3 111 True None []]]"
    by (simp add: trie_def run_defs)
  have p: "path ?st 1 (wstr ''do'') = Some 3"
    by (simp add: run_defs)
  have n1: "wstr ''do'' \<noteq> []" and n2: "wstr ''g'' \<noteq> []" by (simp_all add: wstr_def)
  from addword_clears_prefix_nodes[OF t n1 n2 p] t p show ?thesis by blast
qed

end
